theory Spec2Isabelle
  imports Complex_Main "HOL-Library.Multiset"
begin

section \<open>The Dukascopy aggregator (src/dukascopy/aggregator.js)\<close>

text \<open>
  A shallow embedding of \<^verbatim>\<open>aggregator.js\<close>: \<^verbatim>\<open>parseTimeframe\<close>, \<^verbatim>\<open>getBarTime\<close>,
  \<^verbatim>\<open>aggregateTicksToBars\<close>, \<^verbatim>\<open>resampleBars\<close> and the statistics functions.

  Conventions of the model.
  \<^item> A number of JavaScript is a \<open>jsnum\<close>: a finite double, given by its real value, or one of
    \<open>-0\<close>, \<open>\<plusminus>\<infinity>\<close>, \<^verbatim>\<open>NaN\<close>. The arithmetic on \<open>jsnum\<close> is that of IEEE 754 binary64: the exact
    result is rounded to the nearest double, ties to even, and overflows to an infinity. The
    timeframe count, the bucket arithmetic of \<^verbatim>\<open>getBarTime\<close>, the comparators of the sorts and the
    statistics functions are computed in it.
  \<^item> A \<^verbatim>\<open>Date\<close> holds a time value, an integral number of milliseconds of magnitude at most
    \<open>8.64\<cdot>10\<^sup>1\<^sup>5\<close>, or is the Invalid Date (time value \<^verbatim>\<open>NaN\<close>). \<open>Date ms\<close> is \<^verbatim>\<open>new Date(ms)\<close>, which
    is the Invalid Date outside that range.
  \<^item> Prices and volumes of ticks and bars are finite numbers, modelled as \<open>real\<close>. The aggregation
    never divides by zero. Every result of an arithmetic operation on prices and volumes passes
    through the rounding function \<open>rnd\<close>, the first parameter of the two aggregation functions:
    \<open>exact\<close> is arithmetic without rounding, \<open>binary64\<close> the rounding of a double. Sums of prices
    or volumes beyond the range of the finite doubles are not modelled. Counts of ticks are
    integers and exact.
  \<^item> An exception of the source is the \<open>Inl\<close> of a sum type.
  \<^item> \<^verbatim>\<open>Array.prototype.sort\<close> sorts the caller's array in place, so both entry points return the
    array as the call leaves it together with their result.
\<close>

subsection \<open>Errors, numbers, dates, records\<close>

text \<open>
  \<open>InvalidTimeframe\<close> is the \<^verbatim>\<open>Error\<close> thrown by \<^verbatim>\<open>parseTimeframe\<close>, the only \<^verbatim>\<open>throw\<close> statement
  of the engine. \<open>RangeError\<close> is what the engine of JavaScript raises when a call spreads more
  arguments than its stack holds, as \<^verbatim>\<open>Math.min(...spreads)\<close> can. \<open>InsufficientData\<close> is the second
  error of the specification's taxonomy; no statement of the source raises it.
\<close>

datatype error = InvalidTimeframe | InsufficientData | RangeError

datatype jsnum = Fin real | NegZero | PosInf | NegInf | NaN

datatype jsdate = TimeValue int | InvalidDate

text \<open>The report of \<^verbatim>\<open>calculateTickStatistics\<close>; \<open>timeRange\<close> is the pair of \<^verbatim>\<open>from\<close> and \<^verbatim>\<open>to\<close>.\<close>

record moments =
  mean :: jsnum
  std :: jsnum

record range_stats = moments +
  min' :: jsnum
  max' :: jsnum

record return_stats = moments +
  skew :: jsnum
  kurtosis :: jsnum

record statistics =
  tickCount :: nat
  timeRange :: "jsdate \<times> jsdate"
  spread :: range_stats
  price :: range_stats
  returns :: return_stats

text \<open>The timestamp of a tick is a number of milliseconds; the source passes it to \<^verbatim>\<open>new Date\<close>.\<close>

record tick =
  timestamp :: int
  bid :: real
  ask :: real
  bidVolume :: "real option"
  askVolume :: "real option"

text \<open>
  The object literal built by \<^verbatim>\<open>resampleBars\<close> is a \<open>bar\<close>; the one built by
  \<^verbatim>\<open>aggregateTicksToBars\<close> has the additional field \<^verbatim>\<open>spread\<close>. \<^verbatim>\<open>resampleBars\<close> reads only the
  fields of \<open>bar\<close> from its input and accepts either. The source reads the optional input fields as
  \<^verbatim>\<open>bar.volume || 0\<close> and \<^verbatim>\<open>bar.tickCount || 1\<close>, which cannot tell an absent field from a zero: an
  input bar without the field is the record with \<open>0\<close> there. (\<open>open\<close> is a constant of HOL, hence
  \<open>open'\<close>.)
\<close>

record bar =
  timestamp :: jsdate
  open' :: real
  high :: real
  low :: real
  close :: real
  volume :: real
  tickCount :: nat

record tick_bar = bar +
  spread :: real

subsection \<open>Rounding\<close>

definition exact :: "real \<Rightarrow> real" where
  "exact x = x"

text \<open>
  Rounding to the nearest integer, ties to the even one, and the rounding of IEEE 754 binary64:
  the result is the multiple of the unit in the last place, \<open>2\<^sup>e\<^sup>-\<^sup>5\<^sup>2\<close> with \<open>e\<close> the binary exponent
  of \<open>x\<close> (at least \<open>-1022\<close>, below which the numbers are subnormal), that is nearest to \<open>x\<close>.
  The exponent has no upper bound here; \<open>double_of\<close> below adds the overflow.
\<close>

definition round_even :: "real \<Rightarrow> int" where
  "round_even q =
     (let f = \<lfloor>q\<rfloor>
      in if q - of_int f < 1 / 2 then f
         else if 1 / 2 < q - of_int f then f + 1
         else if even f then f else f + 1)"

definition binary64 :: "real \<Rightarrow> real" where
  "binary64 x =
     (if x = 0 then 0
      else let e = max \<lfloor>log 2 \<bar>x\<bar>\<rfloor> (- 1022);
               ulp = 2 powr (of_int (e - 52))
           in of_int (round_even (x / ulp)) * ulp)"

subsection \<open>The numbers of JavaScript\<close>

fun is_neg :: "jsnum \<Rightarrow> bool" where
  "is_neg (Fin x) = (x < 0)"
| "is_neg NegZero = True"
| "is_neg NegInf = True"
| "is_neg _ = False"

fun is_zero :: "jsnum \<Rightarrow> bool" where
  "is_zero (Fin x) = (x = 0)"
| "is_zero NegZero = True"
| "is_zero _ = False"

fun is_inf :: "jsnum \<Rightarrow> bool" where
  "is_inf PosInf = True"
| "is_inf NegInf = True"
| "is_inf _ = False"

fun magnitude :: "jsnum \<Rightarrow> real" where
  "magnitude (Fin x) = x"
| "magnitude _ = 0"

definition signed_zero :: "bool \<Rightarrow> jsnum" where
  "signed_zero neg = (if neg then NegZero else Fin 0)"

definition signed_inf :: "bool \<Rightarrow> jsnum" where
  "signed_inf neg = (if neg then NegInf else PosInf)"

text \<open>
  The double that an operation with the exact result \<open>x\<close> returns: \<open>x\<close> rounded, an infinity when
  the rounded value leaves the finite range (it reaches \<open>2\<^sup>1\<^sup>0\<^sup>2\<^sup>4\<close>), and \<open>-0\<close> when a negative \<open>x\<close>
  rounds to zero. An exact result \<open>0\<close> is \<open>+0\<close> here; the operations decide the sign of a zero
  that comes from zero operands themselves.
\<close>

definition double_limit :: real where
  "double_limit = 2 ^ 1024"

definition double_of :: "real \<Rightarrow> jsnum" where
  "double_of x =
     (let y = binary64 x
      in if double_limit \<le> \<bar>y\<bar> then signed_inf (x < 0)
         else if y = 0 \<and> x < 0 then NegZero
         else Fin y)"

fun js_neg :: "jsnum \<Rightarrow> jsnum" where
  "js_neg (Fin x) = (if x = 0 then NegZero else Fin (- x))"
| "js_neg NegZero = Fin 0"
| "js_neg PosInf = NegInf"
| "js_neg NegInf = PosInf"
| "js_neg NaN = NaN"

definition js_add :: "jsnum \<Rightarrow> jsnum \<Rightarrow> jsnum" where
  "js_add a b =
     (if a = NaN \<or> b = NaN then NaN
      else if is_inf a \<and> is_inf b then (if a = b then a else NaN)
      else if is_inf a then a
      else if is_inf b then b
      else if is_zero a \<and> is_zero b then signed_zero (is_neg a \<and> is_neg b)
      else double_of (magnitude a + magnitude b))"

definition js_sub :: "jsnum \<Rightarrow> jsnum \<Rightarrow> jsnum" where
  "js_sub a b = js_add a (js_neg b)"

definition js_mul :: "jsnum \<Rightarrow> jsnum \<Rightarrow> jsnum" where
  "js_mul a b =
     (if a = NaN \<or> b = NaN then NaN
      else let neg = (is_neg a \<noteq> is_neg b)
           in if is_inf a \<or> is_inf b then (if is_zero a \<or> is_zero b then NaN else signed_inf neg)
              else if is_zero a \<or> is_zero b then signed_zero neg
              else double_of (magnitude a * magnitude b))"

definition js_div :: "jsnum \<Rightarrow> jsnum \<Rightarrow> jsnum" where
  "js_div a b =
     (if a = NaN \<or> b = NaN then NaN
      else let neg = (is_neg a \<noteq> is_neg b)
           in if is_inf a then (if is_inf b then NaN else signed_inf neg)
              else if is_inf b then signed_zero neg
              else if is_zero b then (if is_zero a then NaN else signed_inf neg)
              else if is_zero a then signed_zero neg
              else double_of (magnitude a / magnitude b))"

fun js_sqrt :: "jsnum \<Rightarrow> jsnum" where
  "js_sqrt (Fin x) = (if x < 0 then NaN else double_of (sqrt x))"
| "js_sqrt NegZero = NegZero"
| "js_sqrt PosInf = PosInf"
| "js_sqrt NegInf = NaN"
| "js_sqrt NaN = NaN"

text \<open>\<^verbatim>\<open>Math.floor\<close>; the floor of a double is a double.\<close>

fun js_floor :: "jsnum \<Rightarrow> jsnum" where
  "js_floor (Fin x) = Fin (of_int \<lfloor>x\<rfloor>)"
| "js_floor v = v"

text \<open>
  \<^verbatim>\<open>Math.pow(x, k)\<close> for the exponents 2, 3 and 4 of the source. ECMAScript fixes the result for
  the bases \<^verbatim>\<open>NaN\<close>, \<open>\<plusminus>0\<close> and \<open>\<plusminus>\<infinity>\<close> and leaves it to the implementation to approximate the power
  of another base; the model takes the double nearest to the power.
\<close>

definition js_pow :: "jsnum \<Rightarrow> nat \<Rightarrow> jsnum" where
  "js_pow x k =
     (if k = 0 then Fin 1
      else if x = NaN then NaN
      else if is_inf x then signed_inf (is_neg x \<and> odd k)
      else if is_zero x then signed_zero (is_neg x \<and> odd k)
      else double_of (magnitude x ^ k))"

text \<open>The order of the numbers, with \<open>-0\<close> below \<open>+0\<close> as \<^verbatim>\<open>Math.min\<close> and \<^verbatim>\<open>Math.max\<close> see it.\<close>

definition js_less :: "jsnum \<Rightarrow> jsnum \<Rightarrow> bool" where
  "js_less a b =
     (a \<noteq> NaN \<and> b \<noteq> NaN \<and> a \<noteq> b \<and>
      (a = NegInf \<or> b = PosInf \<or>
       (\<not> is_inf a \<and> \<not> is_inf b \<and>
        (magnitude a < magnitude b \<or> (magnitude a = magnitude b \<and> a = NegZero)))))"

definition js_min2 :: "jsnum \<Rightarrow> jsnum \<Rightarrow> jsnum" where
  "js_min2 a b = (if a = NaN \<or> b = NaN then NaN else if js_less b a then b else a)"

definition js_max2 :: "jsnum \<Rightarrow> jsnum \<Rightarrow> jsnum" where
  "js_max2 a b = (if a = NaN \<or> b = NaN then NaN else if js_less a b then b else a)"

text \<open>
  \<^verbatim>\<open>Math.min(...values)\<close> and \<^verbatim>\<open>Math.max(...values)\<close>. Every element of the array becomes an
  argument of the call, and the engine raises a \<^verbatim>\<open>RangeError\<close> when there are more than its stack
  takes. That number depends on the engine and on the size of its stack; it is the parameter
  \<open>maxArgs\<close>.
\<close>

definition js_min :: "nat \<Rightarrow> jsnum list \<Rightarrow> error + jsnum" where
  "js_min maxArgs xs = (if maxArgs < length xs then Inl RangeError else Inr (foldl js_min2 PosInf xs))"

definition js_max :: "nat \<Rightarrow> jsnum list \<Rightarrow> error + jsnum" where
  "js_max maxArgs xs = (if maxArgs < length xs then Inl RangeError else Inr (foldl js_max2 NegInf xs))"

text \<open>\<^verbatim>\<open>values.reduce((a, b) => a + b, 0)\<close> and \<^verbatim>\<open>values.length\<close> as a number.\<close>

definition js_sum :: "jsnum list \<Rightarrow> jsnum" where
  "js_sum xs = foldl js_add (Fin 0) xs"

definition js_length :: "'a list \<Rightarrow> jsnum" where
  "js_length xs = Fin (real (length xs))"

subsection \<open>Date\<close>

text \<open>
  \<^verbatim>\<open>new Date(v)\<close> for a number \<open>v\<close>: the time value is \<open>v\<close> without its fraction when \<open>v\<close> is finite
  and of magnitude at most \<open>8.64\<cdot>10\<^sup>1\<^sup>5\<close>, and \<^verbatim>\<open>NaN\<close> otherwise. \<open>Date ms\<close> is \<^verbatim>\<open>new Date\<close> on
  the timestamp of a tick, \<open>Date_copy\<close> is \<^verbatim>\<open>new Date\<close> on the timestamp of a bar, which is a
  \<^verbatim>\<open>Date\<close> already.
\<close>

definition new_Date :: "jsnum \<Rightarrow> jsdate" where
  "new_Date v =
     (case v of
        Fin x \<Rightarrow>
          if \<bar>x\<bar> \<le> 8640000000000000 then TimeValue (if x < 0 then \<lceil>x\<rceil> else \<lfloor>x\<rfloor>)
          else InvalidDate
      | NegZero \<Rightarrow> TimeValue 0
      | _ \<Rightarrow> InvalidDate)"

definition Date :: "int \<Rightarrow> jsdate" where
  "Date ms = new_Date (Fin (of_int ms))"

fun getTime :: "jsdate \<Rightarrow> jsnum" where
  "getTime (TimeValue ms) = Fin (of_int ms)"
| "getTime InvalidDate = NaN"

definition Date_copy :: "jsdate \<Rightarrow> jsdate" where
  "Date_copy d = new_Date (getTime d)"

text \<open>
  \<^verbatim>\<open>a.getTime() !== b.getTime()\<close> is true whenever one side is \<^verbatim>\<open>NaN\<close>; \<open>same_time\<close> is its
  negation.
\<close>

fun same_time :: "jsdate \<Rightarrow> jsdate \<Rightarrow> bool" where
  "same_time (TimeValue a) (TimeValue b) = (a = b)"
| "same_time _ _ = False"

subsection \<open>parseTimeframe\<close>

definition is_digit :: "char \<Rightarrow> bool" where
  "is_digit c = (c \<in> set ''0123456789'')"

definition digit_value :: "char \<Rightarrow> nat" where
  "digit_value c = of_char c - 48"

text \<open>
  \<^verbatim>\<open>parseInt\<close> on a string of decimal digits returns a number, the double nearest to the integer
  that the digits denote: the integer itself up to \<open>2\<^sup>5\<^sup>3\<close>, a rounded value beyond, and
  \<^verbatim>\<open>Infinity\<close> from \<open>2\<^sup>1\<^sup>0\<^sup>2\<^sup>4\<close> on. (ECMAScript lets an implementation read the digits after the
  twentieth as zeros; V8, the engine of Node.js, rounds the exact integer.)
\<close>

definition decimal :: "string \<Rightarrow> nat" where
  "decimal ds = foldl (\<lambda>n c. 10 * n + digit_value c) 0 ds"

definition parseInt :: "string \<Rightarrow> jsnum" where
  "parseInt ds = double_of (real (decimal ds))"

text \<open>
  \<^verbatim>\<open>timeframe.match(/^(\d+)([mhd])$/)\<close>: the longest prefix of digits must be non-empty and be
  followed by exactly one more character, which is the unit. The \<^verbatim>\<open>default\<close> branch of the
  \<^verbatim>\<open>switch\<close> is kept as the source has it. The products are products of doubles.
\<close>

definition parseTimeframe :: "string \<Rightarrow> error + jsnum" where
  "parseTimeframe timeframe =
     (let val = takeWhile is_digit timeframe;
          rest = dropWhile is_digit timeframe
      in if val = [] \<or> length rest \<noteq> 1 \<or> hd rest \<notin> set ''mhd'' then Inl InvalidTimeframe
         else let num = parseInt val; unit = hd rest
              in if unit = CHR ''m'' then Inr num
                 else if unit = CHR ''h'' then Inr (js_mul num (Fin 60))
                 else if unit = CHR ''d'' then Inr (js_mul (js_mul num (Fin 60)) (Fin 24))
                 else Inl InvalidTimeframe)"

subsection \<open>getBarTime\<close>

text \<open>
  \<^verbatim>\<open>intervalMinutes * 60 * 1000\<close> and \<^verbatim>\<open>Math.floor(ms / intervalMs) * intervalMs\<close>, each operation
  on doubles, and \<^verbatim>\<open>new Date\<close> on the result.
\<close>

definition intervalMs :: "jsnum \<Rightarrow> jsnum" where
  "intervalMs intervalMinutes = js_mul (js_mul intervalMinutes (Fin 60)) (Fin 1000)"

definition getBarTime :: "jsdate \<Rightarrow> jsnum \<Rightarrow> jsdate" where
  "getBarTime tickTime intervalMinutes =
     (let ms = getTime tickTime;
          barMs = js_mul (js_floor (js_div ms (intervalMs intervalMinutes))) (intervalMs intervalMinutes)
      in new_Date barMs)"

subsection \<open>Array.prototype.sort\<close>

text \<open>
  The sort of ECMAScript 2019 (Node 11 and later; the README asks for Node 14) is stable. It is
  modelled as the stable insertion sort driven by the sign of the comparator: \<open>gt a b\<close> says that
  the comparator returns a positive number on \<open>(a, b)\<close>. A comparator result \<^verbatim>\<open>NaN\<close> counts as
  \<open>0\<close>. The comparators of the source return \<^verbatim>\<open>NaN\<close> when one of the two dates is the Invalid
  Date; they are then not consistent in the sense of ECMAScript, which leaves the order of such an
  array to the implementation. The insertion sort is one such order; the statements below that
  speak of the order of the array are about arrays whose timestamps are valid dates.
\<close>

fun insort_by :: "('a \<Rightarrow> 'a \<Rightarrow> bool) \<Rightarrow> 'a \<Rightarrow> 'a list \<Rightarrow> 'a list" where
  "insort_by gt x [] = [x]"
| "insort_by gt x (y # ys) = (if gt x y then y # insort_by gt x ys else x # y # ys)"

definition array_sort :: "('a \<Rightarrow> 'a \<Rightarrow> bool) \<Rightarrow> 'a list \<Rightarrow> 'a list" where
  "array_sort gt xs = foldr (insort_by gt) xs []"

text \<open>
  \<^verbatim>\<open>(a, b) => new Date(a.timestamp) - new Date(b.timestamp)\<close> on ticks and on bars: the
  difference of the two time values, a double, is positive.
\<close>

definition date_after :: "jsdate \<Rightarrow> jsdate \<Rightarrow> bool" where
  "date_after a b = js_less (Fin 0) (js_sub (getTime a) (getTime b))"

definition tick_after :: "tick \<Rightarrow> tick \<Rightarrow> bool" where
  "tick_after a b = date_after (Date (tick.timestamp a)) (Date (tick.timestamp b))"

definition bar_after :: "'a bar_scheme \<Rightarrow> 'a bar_scheme \<Rightarrow> bool" where
  "bar_after a b = date_after (Date_copy (bar.timestamp a)) (Date_copy (bar.timestamp b))"

subsection \<open>aggregateTicksToBars\<close>

text \<open>The truth value of \<^verbatim>\<open>tick.bidVolume\<close>: an absent field and the number \<open>0\<close> are falsy.\<close>

fun truthy :: "real option \<Rightarrow> bool" where
  "truthy None = False"
| "truthy (Some v) = (v \<noteq> 0)"

definition midPrice :: "(real \<Rightarrow> real) \<Rightarrow> tick \<Rightarrow> real" where
  "midPrice rnd t = rnd (rnd (bid t + ask t) / 2)"

definition new_tick_bar :: "(real \<Rightarrow> real) \<Rightarrow> jsdate \<Rightarrow> tick \<Rightarrow> tick_bar" where
  "new_tick_bar rnd barTime t =
     \<lparr>bar.timestamp = barTime, open' = midPrice rnd t, high = midPrice rnd t, low = midPrice rnd t,
      close = midPrice rnd t, volume = 0, tickCount = 1, spread = rnd (ask t - bid t)\<rparr>"

definition update_tick_bar :: "(real \<Rightarrow> real) \<Rightarrow> tick_bar \<Rightarrow> tick \<Rightarrow> tick_bar" where
  "update_tick_bar rnd currentBar t =
     (let n = tickCount currentBar + 1
      in currentBar\<lparr>high := max (high currentBar) (midPrice rnd t),
                     low := min (low currentBar) (midPrice rnd t),
                     close := midPrice rnd t,
                     tickCount := n,
                     spread :=
                       rnd (rnd (rnd (spread currentBar * (real n - 1)) + rnd (ask t - bid t)) / real n)\<rparr>)"

definition add_volume :: "(real \<Rightarrow> real) \<Rightarrow> tick \<Rightarrow> tick_bar \<Rightarrow> tick_bar" where
  "add_volume rnd t currentBar =
     (case (bidVolume t, askVolume t) of
        (Some bv, Some av) \<Rightarrow>
          if truthy (Some bv) \<and> truthy (Some av)
          then currentBar\<lparr>volume := rnd (volume currentBar + rnd (rnd (bv + av) / 2))\<rparr>
          else currentBar
      | _ \<Rightarrow> currentBar)"

text \<open>
  One iteration of the \<^verbatim>\<open>for\<close> loop; the state is \<^verbatim>\<open>bars\<close> and \<^verbatim>\<open>currentBar\<close> (\<open>None\<close> is
  \<^verbatim>\<open>null\<close>).
\<close>

fun tick_step ::
  "(real \<Rightarrow> real) \<Rightarrow> jsnum \<Rightarrow> tick_bar list \<times> tick_bar option \<Rightarrow> tick \<Rightarrow>
   tick_bar list \<times> tick_bar option" where
  "tick_step rnd intervalMinutes (bars, None) t =
     (bars,
      Some (add_volume rnd t
        (new_tick_bar rnd (getBarTime (Date (tick.timestamp t)) intervalMinutes) t)))"
| "tick_step rnd intervalMinutes (bars, Some currentBar) t =
     (let barTime = getBarTime (Date (tick.timestamp t)) intervalMinutes
      in if \<not> same_time (bar.timestamp currentBar) barTime
         then (bars @ [currentBar], Some (add_volume rnd t (new_tick_bar rnd barTime t)))
         else (bars, Some (add_volume rnd t (update_tick_bar rnd currentBar t))))"

text \<open>The push of the last bar after the loop.\<close>

fun flush :: "'b list \<times> 'b option \<Rightarrow> 'b list" where
  "flush (bars, None) = bars"
| "flush (bars, Some currentBar) = bars @ [currentBar]"

definition aggregateTicksToBars ::
  "(real \<Rightarrow> real) \<Rightarrow> tick list \<Rightarrow> string \<Rightarrow> tick list \<times> (error + tick_bar list)" where
  "aggregateTicksToBars rnd ticks timeframe =
     (if length ticks = 0 then (ticks, Inr [])
      else case parseTimeframe timeframe of
             Inl e \<Rightarrow> (ticks, Inl e)
           | Inr intervalMinutes \<Rightarrow>
               (let sorted_ticks = array_sort tick_after ticks
                in (sorted_ticks,
                    Inr (flush (foldl (tick_step rnd intervalMinutes) ([], None) sorted_ticks)))))"

subsection \<open>resampleBars\<close>

definition new_bar :: "jsdate \<Rightarrow> 'a bar_scheme \<Rightarrow> bar" where
  "new_bar barTime b =
     \<lparr>bar.timestamp = barTime, open' = open' b, high = high b, low = low b, close = close b,
      volume = (if volume b \<noteq> 0 then volume b else 0),
      tickCount = (if tickCount b \<noteq> 0 then tickCount b else 1)\<rparr>"

definition update_bar :: "(real \<Rightarrow> real) \<Rightarrow> bar \<Rightarrow> 'a bar_scheme \<Rightarrow> bar" where
  "update_bar rnd currentBar b =
     currentBar\<lparr>high := max (high currentBar) (high b),
                low := min (low currentBar) (low b),
                close := close b,
                volume := rnd (volume currentBar + (if volume b \<noteq> 0 then volume b else 0)),
                tickCount := tickCount currentBar + (if tickCount b \<noteq> 0 then tickCount b else 1)\<rparr>"

fun bar_step ::
  "(real \<Rightarrow> real) \<Rightarrow> jsnum \<Rightarrow> bar list \<times> bar option \<Rightarrow> 'a bar_scheme \<Rightarrow> bar list \<times> bar option" where
  "bar_step rnd targetMinutes (resampledBars, None) b =
     (resampledBars, Some (new_bar (getBarTime (Date_copy (bar.timestamp b)) targetMinutes) b))"
| "bar_step rnd targetMinutes (resampledBars, Some currentBar) b =
     (let barTime = getBarTime (Date_copy (bar.timestamp b)) targetMinutes
      in if \<not> same_time (bar.timestamp currentBar) barTime
         then (resampledBars @ [currentBar], Some (new_bar barTime b))
         else (resampledBars, Some (update_bar rnd currentBar b)))"

text \<open>The source sorts before it parses the timeframe: the array is sorted even when the call fails.\<close>

definition resampleBars ::
  "(real \<Rightarrow> real) \<Rightarrow> 'a bar_scheme list \<Rightarrow> string \<Rightarrow> 'a bar_scheme list \<times> (error + bar list)" where
  "resampleBars rnd bars targetTimeframe =
     (if length bars = 0 then (bars, Inr [])
      else let sorted_bars = array_sort bar_after bars
           in case parseTimeframe targetTimeframe of
                Inl e \<Rightarrow> (sorted_bars, Inl e)
              | Inr targetMinutes \<Rightarrow>
                  (sorted_bars,
                   Inr (flush (foldl (bar_step rnd targetMinutes) ([], None) sorted_bars))))"

subsection \<open>calculateStdDev, calculateSkewness, calculateKurtosis, calculateTickStatistics\<close>

definition calculateStdDev :: "jsnum list \<Rightarrow> jsnum" where
  "calculateStdDev xs =
     (let mean = js_div (js_sum xs) (js_length xs);
          squaredDiffs = map (\<lambda>x. js_pow (js_sub x mean) 2) xs;
          variance = js_div (js_sum squaredDiffs) (js_length xs)
      in js_sqrt variance)"

text \<open>
  Neither function has a \<^verbatim>\<open>throw\<close> or a check of the length; the results are sums so that a
  failure can be stated at all.
\<close>

definition calculateSkewness :: "jsnum list \<Rightarrow> error + jsnum" where
  "calculateSkewness xs =
     (let n = js_length xs;
          mean = js_div (js_sum xs) n;
          std = calculateStdDev xs;
          cubedDiffs = map (\<lambda>x. js_pow (js_div (js_sub x mean) std) 3) xs
      in Inr (js_mul (js_div n (js_mul (js_sub n (Fin 1)) (js_sub n (Fin 2)))) (js_sum cubedDiffs)))"

definition calculateKurtosis :: "jsnum list \<Rightarrow> error + jsnum" where
  "calculateKurtosis xs =
     (let n = js_length xs;
          mean = js_div (js_sum xs) n;
          std = calculateStdDev xs;
          fourthDiffs = map (\<lambda>x. js_pow (js_div (js_sub x mean) std) 4) xs;
          rawKurtosis =
            js_sub
              (js_mul
                 (js_div (js_mul n (js_add n (Fin 1)))
                    (js_mul (js_mul (js_sub n (Fin 1)) (js_sub n (Fin 2))) (js_sub n (Fin 3))))
                 (js_sum fourthDiffs))
              (js_div (js_mul (Fin 3) (js_pow (js_sub n (Fin 1)) 2))
                 (js_mul (js_sub n (Fin 2)) (js_sub n (Fin 3))))
      in Inr (js_sub rawKurtosis (Fin 3)))"

text \<open>The loop over \<^verbatim>\<open>i = 1 .. midPrices.length - 1\<close> that fills \<^verbatim>\<open>returns\<close>.\<close>

fun simple_returns :: "jsnum list \<Rightarrow> jsnum list" where
  "simple_returns (p # q # ps) = js_div (js_sub q p) p # simple_returns (q # ps)"
| "simple_returns _ = []"

text \<open>
  The object \<^verbatim>\<open>{min, max, mean, std}\<close> of the spreads and of the mid prices; the two spread
  calls come first and can fail.
\<close>

definition describe :: "nat \<Rightarrow> jsnum list \<Rightarrow> error + range_stats" where
  "describe maxArgs xs =
     (case js_min maxArgs xs of
        Inl e \<Rightarrow> Inl e
      | Inr lo \<Rightarrow>
          (case js_max maxArgs xs of
             Inl e \<Rightarrow> Inl e
           | Inr hi \<Rightarrow>
               Inr \<lparr>mean = js_div (js_sum xs) (js_length xs), std = calculateStdDev xs,
                    min' = lo, max' = hi\<rparr>))"

text \<open>
  \<open>None\<close> is the \<^verbatim>\<open>null\<close> returned for an empty array. The fields of the report are evaluated in
  the order of the object literal, and an exception leaves the function; the model propagates
  the \<open>Inl\<close>. The array is read in the order given: this function does not sort.
\<close>

definition calculateTickStatistics :: "nat \<Rightarrow> tick list \<Rightarrow> error + statistics option" where
  "calculateTickStatistics maxArgs ticks =
     (case ticks of
        [] \<Rightarrow> Inr None
      | first # _ \<Rightarrow>
          (let spreads = map (\<lambda>t. js_sub (Fin (ask t)) (Fin (bid t))) ticks;
               midPrices = map (\<lambda>t. js_div (js_add (Fin (bid t)) (Fin (ask t))) (Fin 2)) ticks;
               rets = simple_returns midPrices
           in case describe maxArgs spreads of
                Inl e \<Rightarrow> Inl e
              | Inr sp \<Rightarrow>
                  (case describe maxArgs midPrices of
                     Inl e \<Rightarrow> Inl e
                   | Inr pr \<Rightarrow>
                       (case calculateSkewness rets of
                          Inl e \<Rightarrow> Inl e
                        | Inr sk \<Rightarrow>
                            (case calculateKurtosis rets of
                               Inl e \<Rightarrow> Inl e
                             | Inr ku \<Rightarrow>
                                 Inr (Some
                                   \<lparr>statistics.tickCount = length ticks,
                                    timeRange = (Date (tick.timestamp first), Date (tick.timestamp (last ticks))),
                                    statistics.spread = sp,
                                    price = pr,
                                    returns = \<lparr>mean = js_div (js_sum rets) (js_length rets),
                                               std = calculateStdDev rets, skew = sk, kurtosis = ku\<rparr>\<rparr>))))))"

subsection \<open>Predicates of the specification\<close>

text \<open>
  The grammar of timeframe tokens as the specification words it: an integer, one or more decimal
  digits, followed by one unit out of \<open>m\<close>, \<open>h\<close>, \<open>d\<close>; and the minutes of a unit.
\<close>

definition timeframe_grammar :: "string \<Rightarrow> bool" where
  "timeframe_grammar tf =
     (tf \<noteq> [] \<and> butlast tf \<noteq> [] \<and> list_all is_digit (butlast tf) \<and> last tf \<in> set ''mhd'')"

definition unit_minutes :: "char \<Rightarrow> nat" where
  "unit_minutes u = (if u = CHR ''m'' then 1 else if u = CHR ''h'' then 60 else 1440)"

text \<open>The invariant of a bar: the low is below and the high above both the open and the close.\<close>

definition bar_ok :: "'a bar_scheme \<Rightarrow> bool" where
  "bar_ok b = (low b \<le> min (open' b) (close b) \<and> max (open' b) (close b) \<le> high b)"

text \<open>
  The fields in which a resampled bar is compared with a bar aggregated from ticks: bucket start,
  open, high, low and close, and with them the volume.
\<close>

definition ohlc :: "'a bar_scheme \<Rightarrow> jsdate \<times> real \<times> real \<times> real \<times> real" where
  "ohlc b = (bar.timestamp b, open' b, high b, low b, close b)"

text \<open>The comparison of two bars on these fields, with or without the volume.\<close>

definition compare_on :: "bool \<Rightarrow> 'a bar_scheme \<Rightarrow> (jsdate \<times> real \<times> real \<times> real \<times> real) \<times> real" where
  "compare_on with_volume b = (ohlc b, if with_volume then volume b else 0)"

text \<open>
  The bucket start of the specification, \<open>floor(t / interval) \<times> interval\<close>, on integers: both
  the instant and the interval are in milliseconds.
\<close>

definition bucketStart :: "int \<Rightarrow> int \<Rightarrow> int" where
  "bucketStart interval ms = (ms div interval) * interval"

text \<open>
  The numbers that a count of minutes or of milliseconds can be: a natural number or \<open>+\<infinity>\<close>.
\<close>

definition count_like :: "jsnum \<Rightarrow> bool" where
  "count_like v = (v = PosInf \<or> (\<exists>j :: nat. v = Fin (real j)))"

text \<open>
  The dates that hold an instant, their instants, and the strict order of the instants. The
  Invalid Date is neither before nor after any date.
\<close>

fun valid_date :: "jsdate \<Rightarrow> bool" where
  "valid_date (TimeValue ms) = (\<bar>ms\<bar> \<le> 8640000000000000)"
| "valid_date InvalidDate = False"

fun time_of :: "jsdate \<Rightarrow> int" where
  "time_of (TimeValue ms) = ms"
| "time_of InvalidDate = 0"

fun date_less :: "jsdate \<Rightarrow> jsdate \<Rightarrow> bool" where
  "date_less (TimeValue a) (TimeValue b) = (a < b)"
| "date_less _ _ = False"

text \<open>
  The bucket starts of the bars of a loop state, closed bars first; and the states a loop can
  reach: while no bar is open, none has been closed.
\<close>

definition stamps :: "'a bar_scheme list \<times> 'a bar_scheme option \<Rightarrow> jsdate list" where
  "stamps st = map bar.timestamp (flush st)"

definition wf_state :: "'a list \<times> 'a option \<Rightarrow> bool" where
  "wf_state st = (snd st = None \<longrightarrow> fst st = [])"

text \<open>
  What a tick adds to the volume of its bar (\<open>None\<close> when the guard of the source lets it add
  nothing), and one iteration of each function seen on the list of all bars of the state, the open
  bar last. These are views for the proofs; \<open>add_volume_eq\<close>, \<open>flush_tick_step\<close> and
  \<open>flush_bar_step\<close> relate them to the definitions above.
\<close>

definition tick_volume :: "(real \<Rightarrow> real) \<Rightarrow> tick \<Rightarrow> real option" where
  "tick_volume rnd t =
     (case (bidVolume t, askVolume t) of
        (Some bv, Some av) \<Rightarrow> if bv \<noteq> 0 \<and> av \<noteq> 0 then Some (rnd (rnd (bv + av) / 2)) else None
      | _ \<Rightarrow> None)"

definition tick_push :: "(real \<Rightarrow> real) \<Rightarrow> jsnum \<Rightarrow> tick_bar list \<Rightarrow> tick \<Rightarrow> tick_bar list" where
  "tick_push rnd m bars t =
     (let d = getBarTime (Date (tick.timestamp t)) m
      in if bars \<noteq> [] \<and> same_time (bar.timestamp (last bars)) d
         then butlast bars @ [add_volume rnd t (update_tick_bar rnd (last bars) t)]
         else bars @ [add_volume rnd t (new_tick_bar rnd d t)])"

definition bar_push :: "(real \<Rightarrow> real) \<Rightarrow> jsnum \<Rightarrow> bar list \<Rightarrow> 'a bar_scheme \<Rightarrow> bar list" where
  "bar_push rnd m bars b =
     (let d = getBarTime (Date_copy (bar.timestamp b)) m
      in if bars \<noteq> [] \<and> same_time (bar.timestamp (last bars)) d
         then butlast bars @ [update_bar rnd (last bars) b]
         else bars @ [new_bar d b])"

text \<open>
  Volumes in whole lots. With a lot size \<open>g\<close>, the ticks trade whole lots when the volume that
  each tick adds to its bar, \<open>(bidVolume + askVolume) / 2\<close>, is a whole number of lots, and the
  arithmetic holds the lots exactly when \<open>rnd\<close> leaves every whole number of lots up to twice
  the total of the ticks as it is. Doubles hold integers up to \<open>2\<^sup>5\<^sup>3\<close>, and so whole lots of
  size 1 up to that total.
\<close>

definition lots :: "real \<Rightarrow> tick \<Rightarrow> nat" where
  "lots g t = (case tick_volume exact t of None \<Rightarrow> 0 | Some v \<Rightarrow> nat \<lfloor>v / g\<rfloor>)"

definition whole_lots :: "(real \<Rightarrow> real) \<Rightarrow> real \<Rightarrow> tick list \<Rightarrow> bool" where
  "whole_lots rnd g ticks =
     (0 < g \<and>
      list_all (\<lambda>t. case tick_volume exact t of None \<Rightarrow> True | Some v \<Rightarrow> v = real (lots g t) * g) ticks \<and>
      list_all (\<lambda>k. rnd (real k * g) = real k * g) [0 ..< Suc (2 * sum_list (map (lots g) ticks))])"

text \<open>
  The concrete scenario of the specification: ticks at 0 s, 30 s and 90 s, here in the order
  90 s, 0 s, 30 s.
\<close>

definition scenario_ticks :: "tick list" where
  "scenario_ticks =
     [\<lparr>tick.timestamp = 90000, bid = 111 / 100, ask = 112 / 100, bidVolume = None, askVolume = None\<rparr>,
      \<lparr>tick.timestamp = 0, bid = 110 / 100, ask = 111 / 100, bidVolume = Some 2, askVolume = Some 4\<rparr>,
      \<lparr>tick.timestamp = 30000, bid = 112 / 100, ask = 113 / 100, bidVolume = Some 1, askVolume = None\<rparr>]"

text \<open>
  Three ticks in one bucket of 15 minutes and two buckets of 5 minutes, with the volumes 0.1, 0.2
  and 0.3, that is, with the doubles nearest to them: \<open>3602879701896397 / 2\<^sup>5\<^sup>5\<close>,
  \<open>3602879701896397 / 2\<^sup>5\<^sup>4\<close> and \<open>5404319552844595 / 2\<^sup>5\<^sup>4\<close>.
\<close>

definition tenth_ticks :: "tick list" where
  "tenth_ticks =
     [\<lparr>tick.timestamp = 0, bid = 1, ask = 1,
       bidVolume = Some (3602879701896397 / 36028797018963968),
       askVolume = Some (3602879701896397 / 36028797018963968)\<rparr>,
      \<lparr>tick.timestamp = 300000, bid = 1, ask = 1,
       bidVolume = Some (3602879701896397 / 18014398509481984),
       askVolume = Some (3602879701896397 / 18014398509481984)\<rparr>,
      \<lparr>tick.timestamp = 360000, bid = 1, ask = 1,
       bidVolume = Some (5404319552844595 / 18014398509481984),
       askVolume = Some (5404319552844595 / 18014398509481984)\<rparr>]"

text \<open>
  Five ticks in two buckets of 15 minutes and four buckets of 5 minutes, given out of order, with
  volumes in whole lots of size 1.
\<close>

definition lot_ticks :: "tick list" where
  "lot_ticks =
     [\<lparr>tick.timestamp = 1000000, bid = 3, ask = 5, bidVolume = Some 4, askVolume = Some 4\<rparr>,
      \<lparr>tick.timestamp = 0, bid = 1, ask = 3, bidVolume = Some 1, askVolume = Some 1\<rparr>,
      \<lparr>tick.timestamp = 400000, bid = 4, ask = 6, bidVolume = Some 3, askVolume = Some 1\<rparr>,
      \<lparr>tick.timestamp = 240000, bid = 0, ask = 2, bidVolume = Some 2, askVolume = Some 2\<rparr>,
      \<lparr>tick.timestamp = 700000, bid = 2, ask = 2, bidVolume = None, askVolume = Some 7\<rparr>]"

section \<open>Rounding to doubles\<close>

text \<open>
  Facts about \<open>round_even\<close> and \<open>binary64\<close>: integers below \<open>2\<^sup>5\<^sup>3\<close> and their quotients by
  powers of two are doubles, rounding keeps signs and powers of two as bounds, and the floor of a
  rounded quotient of integers is the quotient of the integer division when the dividend is below
  \<open>2\<^sup>5\<^sup>3\<close>.
\<close>

lemma round_even_int: "round_even (of_int z) = z"
  by (simp add: round_even_def)

lemma round_even_floor: "\<lfloor>x\<rfloor> \<le> round_even x" "round_even x \<le> \<lfloor>x\<rfloor> + 1"
  by (simp_all add: round_even_def Let_def)

lemma round_even_near: "\<bar>of_int (round_even x) - x\<bar> \<le> 1 / 2"
  unfolding round_even_def Let_def by (auto simp: abs_le_iff; linarith)

lemma round_even_ge: "of_int z \<le> x \<Longrightarrow> z \<le> round_even x"
proof -
  assume "of_int z \<le> x"
  then have "z \<le> \<lfloor>x\<rfloor>" by (simp add: le_floor_iff)
  then show ?thesis using round_even_floor(1)[of x] by linarith
qed

lemma round_even_le: "x \<le> of_int z \<Longrightarrow> round_even x \<le> z"
proof -
  assume a: "x \<le> of_int z"
  show ?thesis
  proof (cases "x = of_int z")
    case True
    then show ?thesis by (simp add: round_even_int)
  next
    case False
    with a have "x < of_int z" by simp
    then have "\<lfloor>x\<rfloor> < z" by (simp add: floor_less_iff)
    then show ?thesis using round_even_floor(2)[of x] by linarith
  qed
qed

lemma round_even_less: "x < of_int z - 1 / 2 \<Longrightarrow> round_even x < z"
proof -
  assume a: "x < of_int z - 1 / 2"
  have "of_int (round_even x) \<le> x + 1 / 2" using round_even_near[of x] by linarith
  with a have "(of_int (round_even x) :: real) < of_int z" by linarith
  then show ?thesis by simp
qed

lemma round_even_minus: "round_even (- q) = - round_even q"
proof (cases "q = of_int \<lfloor>q\<rfloor>")
  case True
  then have "round_even q = \<lfloor>q\<rfloor>" by (metis round_even_int)
  moreover from True have "- q = of_int (- \<lfloor>q\<rfloor>)" by simp
  then have "round_even (- q) = - \<lfloor>q\<rfloor>" by (metis round_even_int)
  ultimately show ?thesis by simp
next
  case False
  then have fl: "\<lfloor>- q\<rfloor> = - \<lfloor>q\<rfloor> - 1"
    by (simp add: floor_minus ceiling_altdef)
  have ne: "q - of_int \<lfloor>q\<rfloor> \<noteq> 0" using False by simp
  show ?thesis
    unfolding round_even_def Let_def fl using ne by auto
qed


lemma exponent_bounds:
  fixes x :: real
  assumes "x \<noteq> 0"
  shows "2 powr (of_int \<lfloor>log 2 \<bar>x\<bar>\<rfloor>) \<le> \<bar>x\<bar>" "\<bar>x\<bar> < 2 powr (of_int \<lfloor>log 2 \<bar>x\<bar>\<rfloor> + 1)"
proof -
  have pos: "0 < \<bar>x\<bar>" using assms by simp
  have "of_int \<lfloor>log 2 \<bar>x\<bar>\<rfloor> \<le> log 2 \<bar>x\<bar>" by simp
  then show "2 powr (of_int \<lfloor>log 2 \<bar>x\<bar>\<rfloor>) \<le> \<bar>x\<bar>"
    using pos by (simp add: powr_le_iff)
  have "log 2 \<bar>x\<bar> < of_int \<lfloor>log 2 \<bar>x\<bar>\<rfloor> + 1" by linarith
  then show "\<bar>x\<bar> < 2 powr (of_int \<lfloor>log 2 \<bar>x\<bar>\<rfloor> + 1)"
    using pos by (simp add: less_powr_iff)
qed

lemma powr_int_neg: "e \<le> 0 \<Longrightarrow> (2 :: real) powr (of_int e) = 1 / 2 ^ nat (- e)"
proof -
  assume "e \<le> 0"
  then have eq: "(of_int e :: real) = - real (nat (- e))" by simp
  have "(2 :: real) powr (of_int e) = 2 powr (- real (nat (- e)))" by (simp only: eq)
  also have "\<dots> = 1 / 2 powr (real (nat (- e)))" by (rule powr_minus_divide)
  also have "\<dots> = 1 / 2 ^ nat (- e)" by (simp add: powr_realpow)
  finally show ?thesis .
qed

lemma powr_int_pos: "0 \<le> e \<Longrightarrow> (2 :: real) powr (of_int e) = 2 ^ nat e"
proof -
  assume "0 \<le> e"
  then have eq: "(of_int e :: real) = real (nat e)" by simp
  have "(2 :: real) powr (of_int e) = 2 powr (real (nat e))" by (simp only: eq)
  also have "\<dots> = 2 ^ nat e" by (simp add: powr_realpow)
  finally show ?thesis .
qed

lemma binary64_scaled:
  assumes "x \<noteq> 0" and "e = max \<lfloor>log 2 \<bar>x\<bar>\<rfloor> (- 1022)" and "e \<le> 52"
  shows "binary64 x = of_int (round_even (x * 2 ^ nat (52 - e))) / 2 ^ nat (52 - e)"
proof -
  have "(2 :: real) powr (of_int (e - 52)) = 1 / 2 ^ nat (- (e - 52))"
    using assms(3) by (intro powr_int_neg) simp
  then have ulp: "(2 :: real) powr (of_int (e - 52)) = 1 / 2 ^ nat (52 - e)" by simp
  have "binary64 x = of_int (round_even (x / 2 powr (of_int (e - 52)))) * 2 powr (of_int (e - 52))"
    using assms(1) unfolding binary64_def assms(2) by (simp add: Let_def)
  then show ?thesis unfolding ulp by simp
qed

lemma binary64_coarse:
  assumes "x \<noteq> 0" and "e = \<lfloor>log 2 \<bar>x\<bar>\<rfloor>" and "52 \<le> e"
  shows "binary64 x = of_int (round_even (x / 2 ^ nat (e - 52)) * 2 ^ nat (e - 52))"
proof -
  have m: "max \<lfloor>log 2 \<bar>x\<bar>\<rfloor> (- 1022) = e" using assms(2,3) by simp
  have ulp: "(2 :: real) powr (of_int (e - 52)) = 2 ^ nat (e - 52)"
    using assms(3) by (intro powr_int_pos) simp
  have "binary64 x = of_int (round_even (x / 2 powr (of_int (e - 52)))) * 2 powr (of_int (e - 52))"
    using assms(1) unfolding binary64_def m by (simp add: Let_def)
  then show ?thesis unfolding ulp by simp
qed

lemma exponent_less:
  fixes x :: real
  assumes "x \<noteq> 0" "\<bar>x\<bar> < 2 powr (of_int n)"
  shows "\<lfloor>log 2 \<bar>x\<bar>\<rfloor> < n"
proof -
  have "2 powr (of_int \<lfloor>log 2 \<bar>x\<bar>\<rfloor>) < (2 :: real) powr (of_int n)"
    using exponent_bounds(1)[OF assms(1)] assms(2) by linarith
  then show ?thesis by simp
qed

lemma exponent_ge:
  fixes x :: real
  assumes "2 powr (of_int n) \<le> \<bar>x\<bar>"
  shows "n \<le> \<lfloor>log 2 \<bar>x\<bar>\<rfloor>"
proof -
  have "(0 :: real) < 2 powr (of_int n)" by simp
  then have pos: "0 < \<bar>x\<bar>" using assms by linarith
  then have "of_int n \<le> log 2 \<bar>x\<bar>" using assms by (simp add: le_log_iff)
  then show ?thesis by (simp add: le_floor_iff)
qed

lemma binary64_0: "binary64 0 = 0"
  by (simp add: binary64_def)

lemma binary64_dyadic:
  assumes "\<bar>n\<bar> < 2 ^ 53" "k \<le> 1074"
  shows "binary64 (of_int n / 2 ^ k) = of_int n / 2 ^ k"
proof (cases "n = 0")
  case True
  then show ?thesis by (simp add: binary64_0)
next
  case False
  define x :: real where "x = of_int n / 2 ^ k"
  define e where "e = max \<lfloor>log 2 \<bar>x\<bar>\<rfloor> (- 1022)"
  have nz: "x \<noteq> 0" using False by (simp add: x_def)
  have "\<bar>x\<bar> = \<bar>of_int n\<bar> / 2 ^ k" by (simp add: x_def)
  also have "\<dots> < 2 ^ 53 / 2 ^ k"
  proof -
    have "real_of_int \<bar>n\<bar> < real_of_int (2 ^ 53)" using assms(1) by (simp only: of_int_less_iff)
    then have "\<bar>real_of_int n\<bar> < 2 ^ 53" by simp
    then show ?thesis by (simp add: divide_strict_right_mono)
  qed
  also have "\<dots> = 2 powr (of_int (53 - int k))"
  proof -
    have "(2 :: real) powr (of_int (53 - int k)) = 2 powr 53 / 2 powr (real k)"
      by (simp add: powr_diff)
    also have "\<dots> = 2 ^ 53 / 2 ^ k" by (simp add: powr_realpow)
    finally show ?thesis by simp
  qed
  finally have "\<lfloor>log 2 \<bar>x\<bar>\<rfloor> < 53 - int k" using nz by (intro exponent_less)
  then have e0: "\<lfloor>log 2 \<bar>x\<bar>\<rfloor> \<le> 52 - int k" by simp
  have le: "e \<le> 52" unfolding e_def using e0 by linarith
  have "int k \<le> 52 - e" unfolding e_def using e0 assms(2) by linarith
  then have k: "k \<le> nat (52 - e)" by linarith
  define d where "d = nat (52 - e) - k"
  have dk: "nat (52 - e) = d + k" using k by (simp add: d_def)
  have p: "(2 :: real) ^ nat (52 - e) = 2 ^ d * 2 ^ k" unfolding dk by (rule power_add)
  have "x * 2 ^ nat (52 - e) = of_int n * 2 ^ d"
    unfolding p by (simp add: x_def)
  also have "\<dots> = of_int (n * 2 ^ d)" by simp
  finally have "round_even (x * 2 ^ nat (52 - e)) = n * 2 ^ d"
    by (simp only: round_even_int)
  then have "binary64 x = of_int (n * 2 ^ d) / 2 ^ nat (52 - e)"
    using binary64_scaled[OF nz e_def le] by simp
  also have "\<dots> = x"
    unfolding p by (simp add: x_def)
  finally show ?thesis by (simp add: x_def)
qed

lemma binary64_int: "\<bar>n\<bar> < 2 ^ 53 \<Longrightarrow> binary64 (of_int n) = of_int n"
  using binary64_dyadic[of n 0] by simp

lemma binary64_minus: "binary64 (- x) = - binary64 x"
proof (cases "x = 0")
  case True
  then show ?thesis by (simp add: binary64_0)
next
  case False
  define u :: real where "u = 2 powr (of_int (max \<lfloor>log 2 \<bar>x\<bar>\<rfloor> (- 1022) - 52))"
  have a: "binary64 x = of_int (round_even (x / u)) * u"
    using False unfolding binary64_def u_def Let_def by simp
  have "binary64 (- x) = of_int (round_even ((- x) / u)) * u"
    using False unfolding binary64_def u_def Let_def by simp
  also have "(- x) / u = - (x / u)" by simp
  finally show ?thesis unfolding a round_even_minus by simp
qed

lemma binary64_ge_powr:
  assumes "0 < x" and "- 1022 \<le> \<lfloor>log 2 x\<rfloor>"
  shows "2 powr (of_int \<lfloor>log 2 x\<rfloor>) \<le> binary64 x"
proof -
  define e where "e = \<lfloor>log 2 x\<rfloor>"
  have ax: "\<bar>x\<bar> = x" using assms(1) by simp
  have m: "max \<lfloor>log 2 \<bar>x\<bar>\<rfloor> (- 1022) = e" using assms(2) by (simp add: ax e_def)
  let ?ulp = "(2 :: real) powr (of_int (e - 52))"
  define P :: real where "P = 2 ^ 52"
  have P: "(2 :: real) powr 52 = P" unfolding P_def by (simp only: powr_numeral zero_le_numeral)
  have b: "binary64 x = of_int (round_even (x / ?ulp)) * ?ulp"
    using assms(1) unfolding binary64_def m by (simp add: Let_def)
  have "2 powr (of_int e) \<le> x"
    using exponent_bounds(1)[of x] assms(1) by (simp add: e_def)
  then have "2 powr (of_int e) / ?ulp \<le> x / ?ulp" by (simp add: divide_right_mono)
  moreover have split: "2 powr (of_int e) = P * ?ulp"
  proof -
    have "(2 :: real) powr (of_int e) = 2 powr (52 + of_int (e - 52))" by simp
    also have "\<dots> = 2 powr 52 * ?ulp" by (rule powr_add)
    finally show ?thesis by (simp only: P)
  qed
  ultimately have "P * ?ulp / ?ulp \<le> x / ?ulp" by simp
  then have "real_of_int (2 ^ 52) \<le> x / ?ulp" unfolding P_def by simp
  then have "2 ^ 52 \<le> round_even (x / ?ulp)" by (rule round_even_ge)
  then have "real_of_int (2 ^ 52) \<le> of_int (round_even (x / ?ulp))"
    by (simp only: of_int_le_iff)
  then have "P \<le> of_int (round_even (x / ?ulp))" unfolding P_def by simp
  then have "P * ?ulp \<le> of_int (round_even (x / ?ulp)) * ?ulp"
    by (intro mult_right_mono) simp_all
  then show ?thesis unfolding b e_def[symmetric] split .
qed

lemma binary64_ge_power:
  assumes "2 ^ n \<le> x"
  shows "2 ^ n \<le> binary64 x"
proof -
  have "(0 :: real) < 2 ^ n" by simp
  then have pos: "0 < x" using assms by linarith
  have "(2 :: real) powr (of_int (int n)) \<le> \<bar>x\<bar>" using assms pos by (simp add: powr_realpow)
  then have n: "int n \<le> \<lfloor>log 2 \<bar>x\<bar>\<rfloor>" by (rule exponent_ge)
  then have n': "int n \<le> \<lfloor>log 2 x\<rfloor>" using pos by simp
  have "(2 :: real) ^ n = 2 powr (of_int (int n))" by (simp add: powr_realpow)
  also have "\<dots> \<le> 2 powr (of_int \<lfloor>log 2 x\<rfloor>)" using n' by simp
  also have "\<dots> \<le> binary64 x"
  proof (rule binary64_ge_powr[OF pos])
    show "- 1022 \<le> \<lfloor>log 2 x\<rfloor>" using n' by linarith
  qed
  finally show ?thesis .
qed

lemma binary64_nonneg: "0 \<le> x \<Longrightarrow> 0 \<le> binary64 x"
proof -
  assume x: "0 \<le> x"
  have r: "0 \<le> round_even (x / 2 powr r)" for r
  proof (rule round_even_ge)
    show "real_of_int 0 \<le> x / 2 powr r" using x by simp
  qed
  show ?thesis
    unfolding binary64_def Let_def using r by simp
qed

lemma binary64_integral: "\<exists>j. binary64 (of_int n) = of_int j"
proof (cases "\<bar>n\<bar> < 2 ^ 53")
  case True
  then show ?thesis using binary64_int by blast
next
  case False
  then have "2 ^ 53 \<le> \<bar>n\<bar>" by simp
  then have "real_of_int (2 ^ 53) \<le> real_of_int \<bar>n\<bar>" by (simp only: of_int_le_iff)
  then have "(2 :: real) ^ 53 \<le> \<bar>of_int n\<bar>" by simp
  then have "(2 :: real) powr (of_int 53) \<le> \<bar>of_int n\<bar>" by (simp add: powr_realpow[symmetric])
  then have "53 \<le> \<lfloor>log 2 \<bar>real_of_int n\<bar>\<rfloor>" by (rule exponent_ge)
  then have ge: "52 \<le> \<lfloor>log 2 \<bar>real_of_int n\<bar>\<rfloor>" by linarith
  have nz: "real_of_int n \<noteq> 0" using False by auto
  show ?thesis
    using binary64_coarse[OF nz refl ge] by blast
qed

lemma floor_binary64_quotient:
  assumes a: "\<bar>a\<bar> < 2 ^ 53" and i: "0 < i" and fin: "real_of_int i < 2 ^ 1024"
  shows "\<lfloor>binary64 (of_int a / of_int i)\<rfloor> = a div i"
proof (cases "a = 0")
  case True
  then show ?thesis by (simp add: binary64_0)
next
  case False
  define q :: real where "q = of_int a / of_int i"
  define e0 where "e0 = \<lfloor>log 2 \<bar>q\<bar>\<rfloor>"
  define e where "e = max e0 (- 1022)"
  define k where "k = a div i"
  define M :: int where "M = 2 ^ nat (52 - e)"
  define N :: real where "N = of_int M"
  have ipos: "0 < real_of_int i" and i1: "1 \<le> real_of_int i" using i by simp_all
  have nz: "q \<noteq> 0" using False i by (simp add: q_def)
  have aq: "\<bar>q\<bar> = \<bar>real_of_int a\<bar> / real_of_int i" using i by (simp add: q_def)
  have ra: "\<bar>real_of_int a\<bar> < 2 ^ 53"
  proof -
    have "real_of_int \<bar>a\<bar> < real_of_int (2 ^ 53)" using a by (simp only: of_int_less_iff)
    then show ?thesis by simp
  qed
  have "\<bar>q\<bar> \<le> \<bar>real_of_int a\<bar>"
    unfolding aq using i1 by (simp add: divide_le_eq mult_le_cancel_left1)
  then have "\<bar>q\<bar> < 2 ^ 53" using ra by linarith
  also have "(2 :: real) ^ 53 = 2 powr (of_int 53)" by (simp add: powr_realpow[symmetric])
  finally have "e0 < 53" unfolding e0_def using nz by (intro exponent_less)
  then have e52: "e \<le> 52" unfolding e_def by linarith
  have Mpos: "0 < M" by (simp add: M_def)
  have Npos: "0 < N" using Mpos by (simp add: N_def)
  have N2: "N = 2 ^ nat (52 - e)" by (simp add: N_def M_def)
  have b: "binary64 q = of_int (round_even (q * N)) / N"
    unfolding N2 using nz e_def[unfolded e0_def] e52 by (rule binary64_scaled)
  have small: "real_of_int i < 2 * N"
  proof (cases "- 1022 \<le> e0")
    case True
    then have ee: "e = e0" by (simp add: e_def)
    have "2 powr (of_int e0) \<le> \<bar>q\<bar>"
      unfolding e0_def using nz by (rule exponent_bounds(1))
    then have "2 powr (of_int e0) * real_of_int i \<le> \<bar>real_of_int a\<bar>"
      unfolding aq using ipos by (simp add: pos_le_divide_eq)
    then have lt: "2 powr (of_int e0) * real_of_int i < 2 ^ 53" using ra by linarith
    have "0 \<le> 52 - e0" using e52 ee by linarith
    then have "(2 :: real) powr (of_int (52 - e0)) = 2 ^ nat (52 - e0)" by (rule powr_int_pos)
    then have Np: "N = 2 powr (of_int (52 - e0))" unfolding N2 ee by (rule sym)
    have "(2 :: real) powr (of_int e0) * (2 * N) = 2 powr (of_int e0) * (2 powr 1 * 2 powr (of_int (52 - e0)))"
      unfolding Np by simp
    also have "\<dots> = 2 powr (of_int e0 + (1 + of_int (52 - e0)))"
      by (simp only: powr_add)
    also have "\<dots> = 2 powr 53" by simp
    also have "\<dots> = 2 ^ 53" by (simp only: powr_numeral zero_le_numeral)
    finally have eq: "(2 :: real) powr (of_int e0) * (2 * N) = 2 ^ 53" .
    have "2 powr (of_int e0) * real_of_int i < 2 powr (of_int e0) * (2 * N)"
      unfolding eq by (rule lt)
    moreover have "(0 :: real) < 2 powr (of_int e0)" by simp
    ultimately show ?thesis by (simp only: mult_less_cancel_left_pos)
  next
    case False
    then have ee: "e = - 1022" by (simp add: e_def)
    have "(2 :: real) ^ 1024 \<le> 2 * 2 ^ 1074"
    proof -
      have "(2 :: real) ^ 1024 \<le> 2 ^ 1075" by (rule power_increasing) simp_all
      then show ?thesis by simp
    qed
    then show ?thesis unfolding N2 ee using fin by simp
  qed
  have kdef: "a = k * i + a mod i" by (simp add: k_def)
  have m0: "0 \<le> a mod i" and m1: "a mod i \<le> i - 1" using i by (simp_all add: pos_mod_bound zle_diff1_eq)
  have lo: "of_int k \<le> q"
  proof -
    have "k * i \<le> a" using kdef m0 by linarith
    then have "real_of_int (k * i) \<le> real_of_int a" by (simp only: of_int_le_iff)
    then show ?thesis unfolding q_def using ipos by (simp add: pos_le_divide_eq)
  qed
  have hi: "q \<le> of_int (k + 1) - 1 / of_int i"
  proof -
    have "a \<le> (k + 1) * i - 1" using kdef m1 by (simp add: algebra_simps)
    then have "real_of_int a \<le> real_of_int ((k + 1) * i - 1)" by (simp only: of_int_le_iff)
    then have "real_of_int a / of_int i \<le> real_of_int ((k + 1) * i - 1) / of_int i"
      using ipos by (simp add: divide_right_mono)
    also have "\<dots> = of_int (k + 1) - 1 / of_int i"
      using ipos by (simp add: field_simps)
    finally show ?thesis unfolding q_def .
  qed
  have "of_int (k * M) \<le> q * N"
    using lo Npos by (simp add: N_def mult_right_mono)
  then have "k * M \<le> round_even (q * N)" by (rule round_even_ge)
  then have "real_of_int (k * M) \<le> of_int (round_even (q * N))" by (simp only: of_int_le_iff)
  then have lower: "of_int k \<le> binary64 q"
    unfolding b using Npos by (simp add: pos_le_divide_eq N_def)
  have half: "1 / 2 < N / of_int i" using small ipos by (simp add: field_simps)
  have "q * N \<le> (of_int (k + 1) - 1 / of_int i) * N"
    using hi Npos by (simp add: mult_right_mono)
  also have "\<dots> = of_int ((k + 1) * M) - N / of_int i"
    by (simp add: N_def algebra_simps)
  also have "\<dots> < of_int ((k + 1) * M) - 1 / 2" using half by linarith
  finally have "round_even (q * N) < (k + 1) * M" by (rule round_even_less)
  then have "real_of_int (round_even (q * N)) < real_of_int ((k + 1) * M)" by (simp only: of_int_less_iff)
  then have upper: "binary64 q < of_int k + 1"
    unfolding b using Npos by (simp add: pos_divide_less_eq N_def)
  have "\<lfloor>binary64 q\<rfloor> = k" using lower upper by (simp add: floor_eq_iff)
  then show ?thesis by (simp add: q_def k_def)
qed
text \<open>The rounding at a given binary exponent, for evaluation.\<close>

lemma floor_log2:
  fixes x :: real
  assumes "2 ^ n \<le> x" "x < 2 ^ Suc n"
  shows "\<lfloor>log 2 x\<rfloor> = int n"
proof -
  have pos: "0 < x" using assms(1) by (meson less_le_trans zero_less_numeral zero_less_power)
  have "real n \<le> log 2 x"
    using assms(1) pos by (simp add: le_log_iff powr_realpow)
  moreover have "log 2 x < real n + 1"
    using assms(2) pos by (simp add: log_less_iff powr_realpow powr_add)
  ultimately show ?thesis by (simp add: floor_eq_iff)
qed

lemma binary64_range:
  assumes "2 ^ n \<le> \<bar>x\<bar>" "\<bar>x\<bar> < 2 ^ Suc n"
  shows "binary64 x = of_int (round_even (x * 2 ^ 52 / 2 ^ n)) * 2 ^ n / 2 ^ 52"
proof -
  have nz: "x \<noteq> 0" using assms(1) by (metis abs_zero not_le zero_less_numeral zero_less_power)
  have e: "\<lfloor>log 2 \<bar>x\<bar>\<rfloor> = int n" using assms by (rule floor_log2)
  have "(2 :: real) powr (real n - 52) = 2 powr real n / 2 powr 52" by (simp add: powr_diff)
  also have "\<dots> = 2 ^ n / 2 ^ 52" by (simp add: powr_realpow)
  finally have ulp: "(2 :: real) powr (real n - 52) = 2 ^ n / 2 ^ 52" .
  have "binary64 x = of_int (round_even (x / (2 ^ n / 2 ^ 52))) * (2 ^ n / 2 ^ 52)"
    using nz by (simp add: binary64_def e Let_def ulp del: power_numeral)
  then show ?thesis by (simp del: power_numeral)
qed

lemma floor_log2_neg:
  fixes x :: real
  assumes "1 / 2 ^ n \<le> x" "x < 2 / 2 ^ n"
  shows "\<lfloor>log 2 x\<rfloor> = - int n"
proof -
  have pos: "0 < x" using assms(1) by (meson divide_pos_pos less_le_trans zero_less_numeral zero_less_one zero_less_power)
  have p: "(2 :: real) powr (- real n) = 1 / 2 ^ n"
    by (simp add: powr_minus powr_realpow divide_simps)
  have "- real n \<le> log 2 x"
    using assms(1) pos by (simp add: le_log_iff p)
  moreover have "(2 :: real) powr (- real n + 1) = 2 / 2 ^ n"
    by (simp only: powr_add p) simp
  then have "log 2 x < - real n + 1"
    using assms(2) pos by (simp add: log_less_iff)
  ultimately show ?thesis by (simp add: floor_eq_iff)
qed

lemma binary64_fraction:
  assumes "1 / 2 ^ n \<le> \<bar>x\<bar>" "\<bar>x\<bar> < 2 / 2 ^ n" "n \<le> 1022"
  shows "binary64 x = of_int (round_even (x * 2 ^ (n + 52))) / 2 ^ (n + 52)"
proof -
  have nz: "x \<noteq> 0" using assms(1)
    by (metis abs_zero divide_pos_pos not_le zero_less_numeral zero_less_one zero_less_power)
  have e: "\<lfloor>log 2 \<bar>x\<bar>\<rfloor> = - int n" using assms(1,2) by (rule floor_log2_neg)
  have m: "max (- int n) (- 1022) = - int n" using assms(3) by simp
  have "(2 :: real) powr (- real n - 52) = 2 powr (- real (n + 52))" by simp
  also have "\<dots> = 1 / 2 ^ (n + 52)"
    by (simp only: powr_minus powr_realpow zero_less_numeral) (simp add: divide_simps)
  finally have ulp: "(2 :: real) powr (- real n - 52) = 1 / 2 ^ (n + 52)" .
  have "binary64 x = of_int (round_even (x / (1 / 2 ^ (n + 52)))) * (1 / 2 ^ (n + 52))"
    using nz by (simp add: binary64_def e m Let_def ulp del: power_numeral)
  then show ?thesis by (simp del: power_numeral)
qed

lemma binary64_1: "binary64 1 = 1"
  using binary64_int[of 1] by simp

lemma binary64_2: "binary64 2 = 2"
  using binary64_int[of 2] by simp

lemma binary64_2p53: "binary64 9007199254740992 = 9007199254740992"
  using binary64_range[of 53 9007199254740992] by (simp add: round_even_def)

lemma binary64_2p53_1: "binary64 9007199254740993 = 9007199254740992"
  using binary64_range[of 53 9007199254740993] by (simp add: round_even_def)

text \<open>
  The sums of the doubles 0.1, 0.2 and 0.3 that the two groupings of the additions meet; the
  fourth and the last two are rounded.
\<close>

lemma binary64_fractions:
  "binary64 (3602879701896397 / 36028797018963968) = 3602879701896397 / 36028797018963968"
  "binary64 (3602879701896397 / 18014398509481984) = 3602879701896397 / 18014398509481984"
  "binary64 (5404319552844595 / 18014398509481984) = 5404319552844595 / 18014398509481984"
  "binary64 (10808639105689191 / 36028797018963968) = 1351079888211149 / 4503599627370496"
  "binary64 (3602879701896397 / 9007199254740992) = 3602879701896397 / 9007199254740992"
  "binary64 (1 / 2) = 1 / 2"
  "binary64 (5404319552844595 / 9007199254740992) = 5404319552844595 / 9007199254740992"
  "binary64 (21617278211378381 / 36028797018963968) = 5404319552844595 / 9007199254740992"
  "binary64 (10808639105689191 / 18014398509481984) = 1351079888211149 / 2251799813685248"
  using binary64_fraction[of 4 "3602879701896397 / 36028797018963968"]
    binary64_fraction[of 3 "3602879701896397 / 18014398509481984"]
    binary64_fraction[of 2 "5404319552844595 / 18014398509481984"]
    binary64_fraction[of 2 "10808639105689191 / 36028797018963968"]
    binary64_fraction[of 2 "3602879701896397 / 9007199254740992"]
    binary64_fraction[of 1 "1 / 2"]
    binary64_fraction[of 1 "5404319552844595 / 9007199254740992"]
    binary64_fraction[of 1 "21617278211378381 / 36028797018963968"]
    binary64_fraction[of 1 "10808639105689191 / 18014398509481984"]
  by (simp_all add: round_even_def)

lemmas binary64_eval = binary64_0 binary64_1 binary64_2 binary64_2p53 binary64_2p53_1

section \<open>Arithmetic of doubles\<close>

text \<open>The operations on small integers, for evaluation; dates in and out of range.\<close>

lemma double_limit_gt: "\<bar>y\<bar> \<le> 2 ^ 53 \<Longrightarrow> \<not> double_limit \<le> \<bar>y\<bar>"
proof -
  assume a: "\<bar>y\<bar> \<le> 2 ^ 53"
  have "(2 :: real) ^ 53 < 2 ^ 1024" by (rule power_strict_increasing) simp_all
  then show ?thesis unfolding double_limit_def using a by linarith
qed

lemma double_of_exact: "binary64 x = x \<Longrightarrow> \<bar>x\<bar> \<le> 2 ^ 53 \<Longrightarrow> double_of x = Fin x"
  using double_limit_gt[of x] by (simp add: double_of_def Let_def)

lemma double_of_int: "\<bar>n\<bar> < 2 ^ 53 \<Longrightarrow> double_of (of_int n) = Fin (of_int n)"
proof -
  assume a: "\<bar>n\<bar> < 2 ^ 53"
  then have "real_of_int \<bar>n\<bar> < real_of_int (2 ^ 53)" by (simp only: of_int_less_iff)
  then have "\<bar>real_of_int n\<bar> \<le> 2 ^ 53" by simp
  then show ?thesis using binary64_int[OF a] by (rule double_of_exact[rotated])
qed

lemma double_of_numeral:
  "numeral k < (9007199254740992 :: int) \<Longrightarrow> double_of (numeral k) = Fin (numeral k)"
  using double_of_int[of "numeral k"] by simp

lemma double_of_neg_numeral:
  "numeral k < (9007199254740992 :: int) \<Longrightarrow> double_of (- numeral k) = Fin (- numeral k)"
  using double_of_int[of "- numeral k"] by simp

lemma double_of_0: "double_of 0 = Fin 0"
  using double_of_int[of 0] by simp

lemma double_of_1: "double_of 1 = Fin 1"
  using double_of_int[of 1] by simp

lemma double_of_neg_1: "double_of (- 1) = Fin (- 1)"
  using double_of_int[of "- 1"] by simp

lemma js_add_Fin: "js_add (Fin a) (Fin b) = (if a = 0 \<and> b = 0 then Fin 0 else double_of (a + b))"
  by (simp add: js_add_def signed_zero_def)

lemma js_sub_Fin: "js_sub (Fin a) (Fin b) = (if a = 0 \<and> b = 0 then Fin 0 else double_of (a - b))"
  by (simp add: js_sub_def js_add_def signed_zero_def)

lemma js_mul_Fin:
  "js_mul (Fin a) (Fin b) =
     (if a = 0 \<or> b = 0 then signed_zero ((a < 0) \<noteq> (b < 0)) else double_of (a * b))"
  by (simp add: js_mul_def)

lemma js_div_Fin:
  "js_div (Fin a) (Fin b) =
     (if b = 0 then (if a = 0 then NaN else signed_inf (a < 0))
      else if a = 0 then signed_zero (b < 0) else double_of (a / b))"
  by (simp add: js_div_def)

lemmas js_eval = js_add_Fin js_sub_Fin js_mul_Fin js_div_Fin double_of_numeral double_of_neg_numeral
  double_of_0 double_of_1 double_of_neg_1 signed_zero_def signed_inf_def

lemma in_range_real: "(\<bar>real_of_int ms\<bar> \<le> 8640000000000000) = (\<bar>ms\<bar> \<le> 8640000000000000)"
  by linarith

lemma Date_eq: "Date ms = (if \<bar>ms\<bar> \<le> 8640000000000000 then TimeValue ms else InvalidDate)"
  by (simp add: Date_def new_Date_def in_range_real del: of_int_abs)

lemma Date_valid: "\<bar>ms\<bar> \<le> 8640000000000000 \<Longrightarrow> Date ms = TimeValue ms"
  by (simp add: Date_eq)

lemma valid_Date: "valid_date (Date ms) \<longleftrightarrow> \<bar>ms\<bar> \<le> 8640000000000000"
  by (simp add: Date_eq)

lemma Date_copy_valid: "valid_date d \<Longrightarrow> Date_copy d = d"
  by (cases d) (simp_all add: Date_copy_def new_Date_def in_range_real del: of_int_abs)

lemma Date_copy_cases: "Date_copy d = InvalidDate \<or> (valid_date d \<and> Date_copy d = d)"
  by (cases d) (simp_all add: Date_copy_def new_Date_def in_range_real del: of_int_abs)


lemma js_mul_finite: "js_mul a b = Fin y \<Longrightarrow> \<bar>y\<bar> < double_limit"
  unfolding js_mul_def double_of_def Let_def signed_zero_def signed_inf_def double_limit_def
  by (auto split: if_splits)

lemma double_of_nat: "count_like (double_of (real n))"
proof -
  obtain j where j: "binary64 (real_of_int (int n)) = of_int j" using binary64_integral by blast
  have "0 \<le> binary64 (real_of_int (int n))" by (rule binary64_nonneg) simp
  then have j0: "0 \<le> j" unfolding j by simp
  define J where "J = nat j"
  have "real_of_int j = real J" unfolding J_def using j0 by simp
  then have b: "binary64 (real n) = real J" using j by simp
  have "\<not> real n < 0" by simp
  then have "double_of (real n) = (if double_limit \<le> \<bar>real J\<bar> then PosInf else Fin (real J))"
    unfolding double_of_def Let_def b signed_inf_def by (simp only: if_False simp_thms)
  then show ?thesis unfolding count_like_def by (cases "double_limit \<le> \<bar>real J\<bar>") auto
qed

lemma count_like_mul:
  assumes "count_like v" "0 < c"
  shows "count_like (js_mul v (Fin (real c)))"
proof -
  from assms consider "v = PosInf" | j where "v = Fin (real j)" by (auto simp: count_like_def)
  then show ?thesis
  proof cases
    case 1
    then show ?thesis
      using assms(2) by (simp add: js_mul_def signed_inf_def count_like_def)
  next
    case 2
    have "js_mul (Fin (real j)) (Fin (real c)) = (if j = 0 \<or> c = 0 then Fin (real 0) else double_of (real (j * c)))"
      by (simp add: js_mul_Fin signed_zero_def)
    then show ?thesis
      unfolding 2 using double_of_nat[of "j * c"] by (auto simp: count_like_def)
  qed
qed

lemma count_like_parse:
  assumes "parseTimeframe tf = Inr m"
  shows "count_like m"
proof -
  have n: "count_like (parseInt ds)" for ds unfolding parseInt_def by (rule double_of_nat)
  have h: "count_like (js_mul (parseInt ds) (Fin 60))" for ds
    using count_like_mul[OF n, of 60 ds] by simp
  have d: "count_like (js_mul (js_mul (parseInt ds) (Fin 60)) (Fin 24))" for ds
    using count_like_mul[OF h, of 24 ds] by simp
  show ?thesis
    using assms n h d by (auto simp: parseTimeframe_def Let_def split: if_splits)
qed

lemma count_like_interval:
  assumes "count_like m"
  shows "count_like (intervalMs m)"
proof -
  have "count_like (js_mul m (Fin (real 60)))" using assms by (rule count_like_mul) simp
  then have "count_like (js_mul (js_mul m (Fin (real 60))) (Fin (real 1000)))"
    by (rule count_like_mul) simp
  then show ?thesis by (simp add: intervalMs_def)
qed

lemma new_Date_double_of_int: "new_Date (double_of (of_int b)) = Date b"
proof (cases "\<bar>b\<bar> < 2 ^ 53")
  case True
  then show ?thesis by (simp add: double_of_int Date_def)
next
  case False
  then have big: "2 ^ 53 \<le> \<bar>b\<bar>" by simp
  then have "real_of_int (2 ^ 53) \<le> real_of_int \<bar>b\<bar>" by (simp only: of_int_le_iff)
  then have rb: "(2 :: real) ^ 53 \<le> \<bar>of_int b\<bar>" by simp
  have "\<bar>binary64 (of_int b)\<bar> = binary64 \<bar>of_int b\<bar>"
    using binary64_minus[of "of_int b"] binary64_nonneg[of "of_int b"] binary64_nonneg[of "- of_int b"]
    by (cases "0 \<le> real_of_int b") (simp_all add: abs_if)
  moreover have "2 ^ 53 \<le> binary64 \<bar>of_int b\<bar>" using rb by (rule binary64_ge_power)
  ultimately have y: "2 ^ 53 \<le> \<bar>binary64 (of_int b)\<bar>" by simp
  have "8640000000000000 < \<bar>b\<bar>" using big by simp
  then have d: "Date b = InvalidDate" by (simp add: Date_eq)
  show ?thesis
    unfolding d using y by (auto simp: double_of_def Let_def signed_inf_def new_Date_def)
qed

lemma getBarTime_Invalid: "getBarTime InvalidDate m = InvalidDate"
  by (simp add: getBarTime_def js_div_def js_mul_def new_Date_def)

lemma getBarTime_zero: "intervalMs m = Fin 0 \<Longrightarrow> getBarTime d m = InvalidDate"
  by (cases d)
     (simp_all add: getBarTime_def Let_def js_div_def js_mul_def new_Date_def signed_inf_def)

lemma getBarTime_inf: "intervalMs m = PosInf \<Longrightarrow> getBarTime d m = InvalidDate"
  by (cases d)
     (simp_all add: getBarTime_def Let_def js_div_def js_mul_def new_Date_def signed_zero_def)

lemma getBarTime_interval:
  assumes int: "intervalMs m = Fin (of_int i)" and pos: "0 < i" and ms: "\<bar>ms\<bar> \<le> 8640000000000000"
  shows "getBarTime (TimeValue ms) m = Date (bucketStart i ms)"
proof -
  define k where "k = ms div i"
  have fin: "real_of_int i < 2 ^ 1024"
    using js_mul_finite[of _ _ "of_int i"] int pos by (simp add: intervalMs_def double_limit_def)
  have small: "\<bar>ms\<bar> < 2 ^ 53" using ms by simp
  have q: "js_floor (js_div (Fin (of_int ms)) (Fin (of_int i))) = Fin (of_int k)"
  proof (cases "ms = 0")
    case True
    then show ?thesis using pos by (simp add: js_div_Fin signed_zero_def k_def)
  next
    case False
    define y where "y = binary64 (of_int ms / of_int i)"
    have fl: "\<lfloor>y\<rfloor> = k" unfolding y_def k_def using small pos fin by (rule floor_binary64_quotient)
    then have lo: "of_int k \<le> y" and hi: "y < of_int k + 1" by (simp_all add: floor_eq_iff)
    have kb: "\<bar>k\<bar> \<le> \<bar>ms\<bar>"
    proof (cases "0 \<le> ms")
      case True
      then have "0 \<le> k" unfolding k_def using pos by (simp add: pos_imp_zdiv_nonneg_iff)
      moreover have "ms div i \<le> ms div 1" using True by (rule zdiv_mono2) (use pos in simp_all)
      ultimately show ?thesis using True by (simp add: k_def)
    next
      case False
      then have neg: "ms < 0" by simp
      then have "\<not> 0 \<le> k" unfolding k_def using pos by (simp add: pos_imp_zdiv_nonneg_iff)
      moreover have "ms div 1 \<le> ms div i" using neg by (rule zdiv_mono2_neg) (use pos in simp_all)
      ultimately show ?thesis using neg by (simp add: k_def)
    qed
    have "real_of_int \<bar>k\<bar> \<le> real_of_int \<bar>ms\<bar>" using kb by (simp only: of_int_le_iff)
    moreover have "real_of_int \<bar>ms\<bar> \<le> real_of_int 8640000000000000" using ms by (simp only: of_int_le_iff)
    ultimately have "\<bar>real_of_int k\<bar> \<le> 8640000000000000" by simp
    then have "\<bar>y\<bar> \<le> 2 ^ 53" using lo hi by simp
    then have no: "\<not> double_limit \<le> \<bar>y\<bar>" by (rule double_limit_gt)
    have sign: "\<not> (y = 0 \<and> real_of_int ms / real_of_int i < 0)"
    proof
      assume a: "y = 0 \<and> real_of_int ms / real_of_int i < 0"
      then have "ms < 0" using pos by (simp add: divide_less_0_iff)
      then have "\<not> 0 \<le> k" unfolding k_def using pos by (simp add: pos_imp_zdiv_nonneg_iff)
      then have "k \<le> - 1" by simp
      then have "real_of_int k \<le> real_of_int (- 1)" by (simp only: of_int_le_iff)
      then show False using hi a by simp
    qed
    have "double_of (of_int ms / of_int i) = Fin y"
      using no sign by (simp add: double_of_def Let_def y_def[symmetric])
    then show ?thesis using False pos by (simp add: js_div_Fin fl)
  qed
  have "getBarTime (TimeValue ms) m = new_Date (js_mul (Fin (of_int k)) (Fin (of_int i)))"
    by (simp add: getBarTime_def Let_def int q)
  also have "\<dots> = Date (k * i)"
  proof (cases "k = 0")
    case True
    then show ?thesis using pos by (simp add: js_mul_Fin signed_zero_def Date_def)
  next
    case False
    then have "js_mul (Fin (of_int k)) (Fin (of_int i)) = double_of (of_int (k * i))"
      using pos by (simp add: js_mul_Fin)
    then show ?thesis by (simp only: new_Date_double_of_int)
  qed
  finally show ?thesis by (simp add: bucketStart_def k_def)
qed
section \<open>Timeframe tokens\<close>

lemma unit_not_digit: "u \<in> set ''mhd'' \<Longrightarrow> \<not> is_digit u"
  by (auto simp: is_digit_def)

lemma parseTimeframe_cases:
  "parseTimeframe tf = Inl InvalidTimeframe \<or> (\<exists>m. parseTimeframe tf = Inr m)"
  by (simp add: parseTimeframe_def Let_def)

lemma parse_matching:
  assumes "ds \<noteq> []" "list_all is_digit ds" "u \<in> set ''mhd''"
  shows "parseTimeframe (ds @ [u]) =
           Inr (if u = CHR ''m'' then parseInt ds
                else if u = CHR ''h'' then js_mul (parseInt ds) (Fin 60)
                else js_mul (js_mul (parseInt ds) (Fin 60)) (Fin 24))"
proof -
  have nd: "\<not> is_digit u" using assms(3) by (rule unit_not_digit)
  have all: "\<forall>c\<in>set ds. is_digit c" using assms(2) by (simp add: list_all_iff)
  have tw: "takeWhile is_digit (ds @ [u]) = ds"
    using all nd by (simp add: takeWhile_append2)
  have dw: "dropWhile is_digit (ds @ [u]) = [u]"
    using all nd by (simp add: dropWhile_append2)
  show ?thesis
    using assms(1,3) by (auto simp: parseTimeframe_def tw dw Let_def)
qed

lemma parse_ok_grammar:
  assumes "parseTimeframe tf \<noteq> Inl InvalidTimeframe"
  shows "timeframe_grammar tf"
proof -
  let ?v = "takeWhile is_digit tf" and ?r = "dropWhile is_digit tf"
  from assms have v: "?v \<noteq> []" and r: "length ?r = 1" and u: "hd ?r \<in> set ''mhd''"
    by (auto simp: parseTimeframe_def Let_def split: if_splits)
  from r obtain c where c: "?r = [c]" by (cases ?r) auto
  have tf: "tf = ?v @ [c]" using takeWhile_dropWhile_id[of is_digit tf] c by simp
  have bl: "butlast tf = ?v" and la: "last tf = c"
    by (subst tf, simp)+
  have "list_all is_digit ?v" by (simp add: list_all_iff) (meson set_takeWhileD)
  with v u c bl la show ?thesis
    by (auto simp: timeframe_grammar_def)
qed

text \<open>Up to \<open>2\<^sup>5\<^sup>3\<close> the count and its products with 60 and 24 are exact.\<close>

lemma double_of_nat_exact: "n \<le> 2 ^ 53 \<Longrightarrow> double_of (real n) = Fin (real n)"
proof (cases "n = 2 ^ 53")
  case True
  then have "real n = 9007199254740992" by simp
  then show ?thesis using double_of_exact[OF binary64_2p53] by simp
next
  case False
  assume "n \<le> 2 ^ 53"
  with False have "\<bar>int n\<bar> < 2 ^ 53" by simp
  then show ?thesis using double_of_int[of "int n"] by simp
qed

lemma js_mul_nat_exact:
  assumes "a * b \<le> 2 ^ 53"
  shows "js_mul (Fin (real a)) (Fin (real b)) = Fin (real (a * b))"
  using double_of_nat_exact[OF assms] by (auto simp: js_mul_Fin signed_zero_def)

lemma minutes_exact:
  assumes "u \<in> set ''mhd''" "decimal ds * unit_minutes u \<le> 2 ^ 53"
  shows "(if u = CHR ''m'' then parseInt ds
          else if u = CHR ''h'' then js_mul (parseInt ds) (Fin 60)
          else js_mul (js_mul (parseInt ds) (Fin 60)) (Fin 24)) =
         Fin (real (decimal ds * unit_minutes u))"
proof -
  let ?n = "decimal ds"
  have n: "?n \<le> 2 ^ 53"
  proof -
    have "1 \<le> unit_minutes u" by (simp add: unit_minutes_def)
    then have "?n * 1 \<le> ?n * unit_minutes u" by (rule mult_le_mono2)
    then have "?n \<le> ?n * unit_minutes u" by simp
    then show ?thesis using assms(2) by (rule order_trans)
  qed
  have p: "parseInt ds = Fin (real ?n)" unfolding parseInt_def using n by (rule double_of_nat_exact)
  consider "u = CHR ''m''" | "u = CHR ''h''" | "u = CHR ''d''" using assms(1) by auto
  then show ?thesis
  proof cases
    case 1
    then show ?thesis by (simp add: p unit_minutes_def)
  next
    case 2
    then have "?n * 60 \<le> 2 ^ 53" using assms(2) by (simp add: unit_minutes_def)
    then have "js_mul (Fin (real ?n)) (Fin (real 60)) = Fin (real (?n * 60))" by (rule js_mul_nat_exact)
    then show ?thesis using 2 by (simp add: p unit_minutes_def)
  next
    case 3
    then have d: "?n * 1440 \<le> 2 ^ 53" using assms(2) by (simp add: unit_minutes_def)
    then have "?n * 60 \<le> 2 ^ 53" by simp
    then have h: "js_mul (Fin (real ?n)) (Fin (real 60)) = Fin (real (?n * 60))" by (rule js_mul_nat_exact)
    have "?n * 60 * 24 \<le> 2 ^ 53" using d by simp
    then have "js_mul (Fin (real (?n * 60))) (Fin (real 24)) = Fin (real (?n * 60 * 24))"
      by (rule js_mul_nat_exact)
    then show ?thesis using 3 h by (simp add: p unit_minutes_def)
  qed
qed

lemmas parse_eval = parseTimeframe_def is_digit_def parseInt_def decimal_def digit_value_def js_eval


lemma parse_5m: "parseTimeframe ''5m'' = Inr (Fin 5)"
  by (simp add: parse_eval)

lemma parse_1m: "parseTimeframe ''1m'' = Inr (Fin 1)"
  by (simp add: parse_eval)

lemma parse_7m: "parseTimeframe ''7m'' = Inr (Fin 7)"
  by (simp add: parse_eval)

lemma parse_0m: "parseTimeframe ''0m'' = Inr (Fin 0)"
  by (simp add: parse_eval)

lemma parse_tick: "parseTimeframe ''tick'' = Inl InvalidTimeframe"
  by (simp add: parseTimeframe_def is_digit_def)

lemma interval_15: "intervalMs (Fin 15) = Fin 900000"
  by (simp add: intervalMs_def js_eval)

lemma interval_5: "intervalMs (Fin 5) = Fin 300000"
  by (simp add: intervalMs_def js_eval)

lemma interval_1: "intervalMs (Fin 1) = Fin 60000"
  by (simp add: intervalMs_def js_eval)

lemma interval_7: "intervalMs (Fin 7) = Fin 420000"
  by (simp add: intervalMs_def js_eval)

lemma interval_0: "intervalMs (Fin 0) = Fin 0"
  by (simp add: intervalMs_def js_eval)

text \<open>
  C8, as the code has it. \<^verbatim>\<open>parseTimeframe\<close> fails with \<open>InvalidTimeframe\<close> exactly on the tokens
  outside the grammar \<^verbatim>\<open>^\d+[mhd]$\<close>. On a token of the grammar it returns a number of minutes,
  a whole number or \<^verbatim>\<open>Infinity\<close>; that number is the count times 1, 60 or 1440 for the units
  \<open>m\<close>, \<open>h\<close>, \<open>d\<close> whenever this product is at most \<open>2\<^sup>5\<^sup>3\<close>. (Beyond, the count and the products
  are rounded to doubles.)
\<close>

theorem parseTimeframe_grammar:
  "(parseTimeframe tf = Inl InvalidTimeframe \<longleftrightarrow> \<not> timeframe_grammar tf) \<and>
   (timeframe_grammar tf \<longrightarrow> (\<exists>m. parseTimeframe tf = Inr m \<and> count_like m)) \<and>
   (timeframe_grammar tf \<and> decimal (butlast tf) * unit_minutes (last tf) \<le> 2 ^ 53 \<longrightarrow>
      parseTimeframe tf = Inr (Fin (real (decimal (butlast tf) * unit_minutes (last tf)))))"
proof -
  have m: "parseTimeframe tf =
      Inr (if last tf = CHR ''m'' then parseInt (butlast tf)
           else if last tf = CHR ''h'' then js_mul (parseInt (butlast tf)) (Fin 60)
           else js_mul (js_mul (parseInt (butlast tf)) (Fin 60)) (Fin 24))"
    if "timeframe_grammar tf"
  proof -
    from that have "tf = butlast tf @ [last tf]" by (simp add: timeframe_grammar_def)
    moreover from that have "parseTimeframe (butlast tf @ [last tf]) =
      Inr (if last tf = CHR ''m'' then parseInt (butlast tf)
           else if last tf = CHR ''h'' then js_mul (parseInt (butlast tf)) (Fin 60)
           else js_mul (js_mul (parseInt (butlast tf)) (Fin 60)) (Fin 24))"
      by (intro parse_matching) (auto simp: timeframe_grammar_def)
    ultimately show ?thesis by simp
  qed
  have a: "parseTimeframe tf = Inl InvalidTimeframe \<longleftrightarrow> \<not> timeframe_grammar tf"
    using m parse_ok_grammar[of tf] by auto
  have b: "\<exists>m. parseTimeframe tf = Inr m \<and> count_like m" if "timeframe_grammar tf"
    using m[OF that] count_like_parse[of tf] by simp
  have c: "parseTimeframe tf = Inr (Fin (real (decimal (butlast tf) * unit_minutes (last tf))))"
    if "timeframe_grammar tf" "decimal (butlast tf) * unit_minutes (last tf) \<le> 2 ^ 53"
  proof -
    have "last tf \<in> set ''mhd''" using that(1) by (simp add: timeframe_grammar_def)
    then show ?thesis unfolding m[OF that(1)] using that(2) by (simp only: minutes_exact)
  qed
  show ?thesis using a b c by blast
qed

theorem parseTimeframe_grammar_witness:
  "timeframe_grammar ''15m'' \<and> decimal ''15'' * unit_minutes CHR ''m'' \<le> 2 ^ 53 \<and>
   parseTimeframe ''15m'' = Inr (Fin 15) \<and>
   timeframe_grammar ''4h'' \<and> parseTimeframe ''4h'' = Inr (Fin 240) \<and>
   timeframe_grammar ''2d'' \<and> parseTimeframe ''2d'' = Inr (Fin 2880) \<and>
   \<not> timeframe_grammar ''tick'' \<and> parseTimeframe ''tick'' = Inl InvalidTimeframe"
  using parseTimeframe_grammar[of "''15m''"] parseTimeframe_grammar[of "''4h''"]
    parseTimeframe_grammar[of "''2d''"] parseTimeframe_grammar[of "''tick''"]
  by (simp add: timeframe_grammar_def is_digit_def decimal_def digit_value_def unit_minutes_def)

theorem count_beyond_doubles:
  "timeframe_grammar ''9007199254740993m'' \<and>
   decimal ''9007199254740993'' * unit_minutes CHR ''m'' = 9007199254740993 \<and>
   parseTimeframe ''9007199254740993m'' = Inr (Fin 9007199254740992)"
proof -
  have "double_of 9007199254740993 = Fin 9007199254740992"
    using double_limit_gt[of 9007199254740992]
    by (simp add: double_of_def Let_def binary64_2p53_1)
  then show ?thesis
    by (simp add: timeframe_grammar_def parseTimeframe_def is_digit_def parseInt_def decimal_def
        digit_value_def unit_minutes_def)
qed

section \<open>Empty input\<close>

text \<open>
  C10. On the empty sequence \<^verbatim>\<open>aggregateTicksToBars\<close> and \<^verbatim>\<open>resampleBars\<close> return the empty
  sequence for every timeframe token, also for one outside the grammar: the check of the length
  comes before the timeframe is parsed, and no \<open>InvalidTimeframe\<close> is raised.
\<close>

theorem empty_input_no_error:
  "aggregateTicksToBars rnd [] timeframe = ([], Inr []) \<and> resampleBars rnd [] timeframe = ([], Inr [])"
  by (simp add: aggregateTicksToBars_def resampleBars_def)

theorem empty_input_no_error_witness:
  "parseTimeframe ''tick'' = Inl InvalidTimeframe \<and>
   aggregateTicksToBars binary64 [] ''tick'' = ([], Inr []) \<and>
   resampleBars binary64 ([] :: bar list) ''tick'' = ([], Inr [])"
  using empty_input_no_error[of binary64 "''tick''"] parse_tick by simp

section \<open>The sort is in place\<close>

lemma positive_double_of_int: "js_less (Fin 0) (double_of (of_int n)) \<longleftrightarrow> 0 < n"
proof (cases "0 < n")
  case True
  then have "(2 :: real) ^ 0 \<le> of_int n" by simp
  then have "2 ^ 0 \<le> binary64 (of_int n)" by (rule binary64_ge_power)
  then have "0 < binary64 (of_int n)" by simp
  then show ?thesis
    using True by (simp add: double_of_def Let_def signed_inf_def js_less_def)
next
  case False
  show ?thesis
  proof (cases "n = 0")
    case True
    then show ?thesis by (simp add: double_of_0 js_less_def)
  next
    case nz: False
    with False have "(2 :: real) ^ 0 \<le> - of_int n" by simp
    then have "2 ^ 0 \<le> binary64 (- of_int n)" by (rule binary64_ge_power)
    then have "binary64 (of_int n) < 0" by (simp add: binary64_minus)
    then show ?thesis
      using False nz by (auto simp: double_of_def Let_def signed_inf_def js_less_def)
  qed
qed

lemma date_after_TimeValue: "date_after (TimeValue a) (TimeValue b) \<longleftrightarrow> b < a"
proof -
  have "js_sub (Fin (of_int a)) (Fin (of_int b)) = double_of (of_int (a - b))"
    by (simp add: js_sub_Fin double_of_0)
  then show ?thesis using positive_double_of_int[of "a - b"] by (simp add: date_after_def)
qed

lemma date_after_Invalid: "\<not> date_after InvalidDate d" "\<not> date_after d InvalidDate"
  by (simp_all add: date_after_def js_sub_def js_add_def js_less_def)

lemma date_after_valid: "valid_date a \<Longrightarrow> valid_date b \<Longrightarrow> date_after a b \<longleftrightarrow> time_of b < time_of a"
  by (cases a; cases b) (simp_all add: date_after_TimeValue)

lemma tick_after_valid:
  assumes "\<bar>tick.timestamp a\<bar> \<le> 8640000000000000" "\<bar>tick.timestamp b\<bar> \<le> 8640000000000000"
  shows "tick_after a b \<longleftrightarrow> tick.timestamp b < tick.timestamp a"
  using assms by (simp add: tick_after_def Date_valid date_after_TimeValue)

lemma bar_after_valid:
  assumes "valid_date (bar.timestamp a)" "valid_date (bar.timestamp b)"
  shows "bar_after a b \<longleftrightarrow> time_of (bar.timestamp b) < time_of (bar.timestamp a)"
  using assms by (simp add: bar_after_def Date_copy_valid date_after_valid)

lemma mset_insort_by: "mset (insort_by gt x xs) = add_mset x (mset xs)"
  by (induction xs) auto

lemma mset_array_sort: "mset (array_sort gt xs) = mset xs"
  by (induction xs) (auto simp: array_sort_def mset_insort_by)

lemma set_array_sort: "set (array_sort gt xs) = set xs"
  by (metis mset_array_sort set_mset_mset)

lemma list_all_array_sort: "list_all P (array_sort gt xs) = list_all P xs"
  by (simp add: list_all_iff set_array_sort)

lemma insort_by_key:
  fixes f :: "'a \<Rightarrow> 'k :: linorder"
  assumes "\<forall>y\<in>set ys. gt x y \<longleftrightarrow> f y < f x"
  shows "insort_by gt x ys = insort_key f x ys"
  using assms by (induction ys) auto

text \<open>
  On an array whose keys the comparator orders, the sort is the stable sort by the key: the
  elements in ascending order of the key, elements of equal key in their former order.
\<close>

lemma array_sort_key:
  fixes f :: "'a \<Rightarrow> 'k :: linorder"
  assumes "\<forall>x\<in>set xs. \<forall>y\<in>set xs. gt x y \<longleftrightarrow> f y < f x"
  shows "array_sort gt xs = sort_key f xs"
  using assms
proof (induction xs)
  case Nil
  then show ?case by (simp add: array_sort_def)
next
  case (Cons x xs)
  then have ih: "array_sort gt xs = sort_key f xs" by simp
  have "array_sort gt (x # xs) = insort_by gt x (array_sort gt xs)" by (simp add: array_sort_def)
  also have "\<dots> = insort_key f x (array_sort gt xs)"
    using Cons.prems by (intro insort_by_key) (simp add: set_array_sort)
  finally show ?case by (simp add: ih sort_key_def)
qed

lemma array_sort_single: "array_sort gt [x] = [x]"
  by (simp add: array_sort_def)

lemma array_sort_ticks:
  assumes "\<forall>t\<in>set ticks. \<bar>tick.timestamp t\<bar> \<le> 8640000000000000"
  shows "array_sort tick_after ticks = sort_key tick.timestamp ticks"
  using assms by (intro array_sort_key) (simp add: tick_after_valid)

lemma array_sort_bars:
  assumes "\<forall>b\<in>set bars. valid_date (bar.timestamp b)"
  shows "array_sort bar_after bars = sort_key (\<lambda>b. time_of (bar.timestamp b)) bars"
  using assms by (intro array_sort_key) (simp add: bar_after_valid)

lemma fst_aggregate_raw:
  "fst (aggregateTicksToBars rnd ticks tf) =
     (if parseTimeframe tf = Inl InvalidTimeframe then ticks else array_sort tick_after ticks)"
proof (cases "parseTimeframe tf = Inl InvalidTimeframe")
  case True
  then show ?thesis by (simp add: aggregateTicksToBars_def)
next
  case False
  then obtain m where "parseTimeframe tf = Inr m" using parseTimeframe_cases[of tf] by blast
  then show ?thesis
    by (cases ticks) (simp_all add: aggregateTicksToBars_def Let_def array_sort_def)
qed

lemma snd_aggregate_raw:
  "parseTimeframe tf = Inr m \<Longrightarrow>
   snd (aggregateTicksToBars rnd ticks tf) =
     Inr (flush (foldl (tick_step rnd m) ([], None) (array_sort tick_after ticks)))"
  by (cases ticks) (simp_all add: aggregateTicksToBars_def Let_def array_sort_def)

lemma fst_aggregate:
  assumes "\<forall>t\<in>set ticks. \<bar>tick.timestamp t\<bar> \<le> 8640000000000000"
  shows "fst (aggregateTicksToBars rnd ticks tf) =
     (if parseTimeframe tf = Inl InvalidTimeframe then ticks else sort_key tick.timestamp ticks)"
  by (simp add: fst_aggregate_raw array_sort_ticks[OF assms])

lemma snd_aggregate:
  assumes "\<forall>t\<in>set ticks. \<bar>tick.timestamp t\<bar> \<le> 8640000000000000" "parseTimeframe tf = Inr m"
  shows "snd (aggregateTicksToBars rnd ticks tf) =
     Inr (flush (foldl (tick_step rnd m) ([], None) (sort_key tick.timestamp ticks)))"
  by (simp add: snd_aggregate_raw[OF assms(2)] array_sort_ticks[OF assms(1)])

lemma fst_resample: "fst (resampleBars rnd bars tf) = array_sort bar_after bars"
proof (cases bars)
  case Nil
  then show ?thesis by (simp add: resampleBars_def array_sort_def)
next
  case (Cons b bs)
  then show ?thesis
    by (cases "parseTimeframe tf") (simp_all add: resampleBars_def Let_def)
qed

lemma snd_resample:
  "parseTimeframe tf = Inr m \<Longrightarrow>
   snd (resampleBars rnd bars tf) =
     Inr (flush (foldl (bar_step rnd m) ([], None) (array_sort bar_after bars)))"
  by (cases bars) (simp_all add: resampleBars_def Let_def array_sort_def)

lemma scenario_valid: "\<forall>t\<in>set scenario_ticks. \<bar>tick.timestamp t\<bar> \<le> 8640000000000000"
  by (simp add: scenario_ticks_def)

lemma sort_scenario:
  "sort_key tick.timestamp scenario_ticks =
     [scenario_ticks ! 1, scenario_ticks ! 2, scenario_ticks ! 0]"
  by (simp add: scenario_ticks_def)

text \<open>
  C4, as the code has it. Both functions sort the caller's array in place: no copy is made. On an
  array whose timestamps are valid dates, the array after the call holds the same elements as
  before, in ascending order of the timestamps and with elements of equal timestamp in their
  former order; it is unchanged when it was in ascending order already.
  \<^verbatim>\<open>aggregateTicksToBars\<close> leaves the array as it is when it rejects the timeframe,
  \<^verbatim>\<open>resampleBars\<close> sorts it even then.
\<close>

theorem sort_in_place:
  assumes "\<forall>t\<in>set ticks. \<bar>tick.timestamp t\<bar> \<le> 8640000000000000"
    and "\<forall>b\<in>set bars. valid_date (bar.timestamp b)"
  shows "fst (aggregateTicksToBars rnd ticks tf) =
           (if parseTimeframe tf = Inl InvalidTimeframe then ticks else sort_key tick.timestamp ticks) \<and>
         fst (resampleBars rnd bars tf') = sort_key (\<lambda>b. time_of (bar.timestamp b)) bars \<and>
         mset (fst (aggregateTicksToBars rnd ticks tf)) = mset ticks \<and>
         mset (fst (resampleBars rnd bars tf')) = mset bars \<and>
         (parseTimeframe tf \<noteq> Inl InvalidTimeframe \<longrightarrow>
            sorted (map tick.timestamp (fst (aggregateTicksToBars rnd ticks tf)))) \<and>
         sorted (map (\<lambda>b. time_of (bar.timestamp b)) (fst (resampleBars rnd bars tf'))) \<and>
         (sorted (map tick.timestamp ticks) \<longrightarrow> fst (aggregateTicksToBars rnd ticks tf) = ticks) \<and>
         (sorted (map (\<lambda>b. time_of (bar.timestamp b)) bars) \<longrightarrow> fst (resampleBars rnd bars tf') = bars)"
proof -
  note a = fst_aggregate[OF assms(1), of rnd tf]
  have r: "fst (resampleBars rnd bars tf') = sort_key (\<lambda>b. time_of (bar.timestamp b)) bars"
    by (simp add: fst_resample array_sort_bars[OF assms(2)])
  have "mset (fst (aggregateTicksToBars rnd ticks tf)) = mset ticks" by (simp add: a)
  moreover have "mset (fst (resampleBars rnd bars tf')) = mset bars" by (simp add: r)
  moreover have "sorted (map tick.timestamp (fst (aggregateTicksToBars rnd ticks tf)))"
    if "parseTimeframe tf \<noteq> Inl InvalidTimeframe"
    using that by (simp add: a)
  moreover have "sorted (map (\<lambda>b. time_of (bar.timestamp b)) (fst (resampleBars rnd bars tf')))"
    by (simp add: r)
  moreover have "fst (aggregateTicksToBars rnd ticks tf) = ticks" if "sorted (map tick.timestamp ticks)"
    using that by (simp add: a sort_key_id_if_sorted)
  moreover have "fst (resampleBars rnd bars tf') = bars"
    if "sorted (map (\<lambda>b. time_of (bar.timestamp b)) bars)"
    using that by (simp add: r sort_key_id_if_sorted)
  ultimately show ?thesis using a r by blast
qed

theorem sort_in_place_witness:
  "list_all (\<lambda>t. \<bar>tick.timestamp t\<bar> \<le> 8640000000000000)
     [scenario_ticks ! 2, scenario_ticks ! 0, scenario_ticks ! 1] \<and>
   list_all (\<lambda>b. valid_date (bar.timestamp b))
      [\<lparr>bar.timestamp = TimeValue 120000, open' = 1, high = 1, low = 1, close = 1, volume = 0, tickCount = 1\<rparr>,
       \<lparr>bar.timestamp = TimeValue 60000, open' = 2, high = 2, low = 2, close = 2, volume = 0, tickCount = 1\<rparr>,
       \<lparr>bar.timestamp = TimeValue 0, open' = 3, high = 3, low = 3, close = 3, volume = 0, tickCount = 1\<rparr>,
       \<lparr>bar.timestamp = TimeValue 60000, open' = 4, high = 4, low = 4, close = 4, volume = 0, tickCount = 1\<rparr>] \<and>
   parseTimeframe ''1m'' \<noteq> Inl InvalidTimeframe \<and>
   fst (aggregateTicksToBars binary64 [scenario_ticks ! 2, scenario_ticks ! 0, scenario_ticks ! 1] ''1m'') =
     [scenario_ticks ! 1, scenario_ticks ! 2, scenario_ticks ! 0] \<and>
   fst (resampleBars binary64
      [\<lparr>bar.timestamp = TimeValue 120000, open' = 1, high = 1, low = 1, close = 1, volume = 0, tickCount = 1\<rparr>,
       \<lparr>bar.timestamp = TimeValue 60000, open' = 2, high = 2, low = 2, close = 2, volume = 0, tickCount = 1\<rparr>,
       \<lparr>bar.timestamp = TimeValue 0, open' = 3, high = 3, low = 3, close = 3, volume = 0, tickCount = 1\<rparr>,
       \<lparr>bar.timestamp = TimeValue 60000, open' = 4, high = 4, low = 4, close = 4, volume = 0, tickCount = 1\<rparr>]
      ''tick'') =
     [\<lparr>bar.timestamp = TimeValue 0, open' = 3, high = 3, low = 3, close = 3, volume = 0, tickCount = 1\<rparr>,
      \<lparr>bar.timestamp = TimeValue 60000, open' = 2, high = 2, low = 2, close = 2, volume = 0, tickCount = 1\<rparr>,
      \<lparr>bar.timestamp = TimeValue 60000, open' = 4, high = 4, low = 4, close = 4, volume = 0, tickCount = 1\<rparr>,
      \<lparr>bar.timestamp = TimeValue 120000, open' = 1, high = 1, low = 1, close = 1, volume = 0, tickCount = 1\<rparr>]"
  using sort_in_place[of "[scenario_ticks ! 2, scenario_ticks ! 0, scenario_ticks ! 1]"
      "[\<lparr>bar.timestamp = TimeValue 120000, open' = 1, high = 1, low = 1, close = 1, volume = 0, tickCount = 1\<rparr>,
        \<lparr>bar.timestamp = TimeValue 60000, open' = 2, high = 2, low = 2, close = 2, volume = 0, tickCount = 1\<rparr>,
        \<lparr>bar.timestamp = TimeValue 0, open' = 3, high = 3, low = 3, close = 3, volume = 0, tickCount = 1\<rparr>,
        \<lparr>bar.timestamp = TimeValue 60000, open' = 4, high = 4, low = 4, close = 4, volume = 0, tickCount = 1\<rparr>]"
      binary64 "''1m''" "''tick''"]
    parse_1m
  by (simp add: scenario_ticks_def)

theorem caller_array_reordered:
  "fst (aggregateTicksToBars binary64 scenario_ticks ''1m'') =
     [scenario_ticks ! 1, scenario_ticks ! 2, scenario_ticks ! 0] \<and>
   fst (aggregateTicksToBars binary64 scenario_ticks ''1m'') \<noteq> scenario_ticks \<and>
   fst (resampleBars binary64
     [\<lparr>bar.timestamp = TimeValue 60000, open' = 1, high = 1, low = 1, close = 1, volume = 0, tickCount = 1\<rparr>,
      \<lparr>bar.timestamp = TimeValue 0, open' = 2, high = 2, low = 2, close = 2, volume = 0, tickCount = 1\<rparr>]
     ''tick'') =
     [\<lparr>bar.timestamp = TimeValue 0, open' = 2, high = 2, low = 2, close = 2, volume = 0, tickCount = 1\<rparr>,
      \<lparr>bar.timestamp = TimeValue 60000, open' = 1, high = 1, low = 1, close = 1, volume = 0, tickCount = 1\<rparr>]"
proof -
  have "fst (aggregateTicksToBars binary64 scenario_ticks ''1m'') =
      [scenario_ticks ! 1, scenario_ticks ! 2, scenario_ticks ! 0]"
    by (simp add: fst_aggregate[OF scenario_valid] parse_1m sort_scenario)
  moreover have "[scenario_ticks ! 1, scenario_ticks ! 2, scenario_ticks ! 0] \<noteq> scenario_ticks"
    by (simp add: scenario_ticks_def)
  moreover have "fst (resampleBars binary64
     [\<lparr>bar.timestamp = TimeValue 60000, open' = 1, high = 1, low = 1, close = 1, volume = 0, tickCount = 1\<rparr>,
      \<lparr>bar.timestamp = TimeValue 0, open' = 2, high = 2, low = 2, close = 2, volume = 0, tickCount = 1\<rparr>]
     ''tick'') =
     [\<lparr>bar.timestamp = TimeValue 0, open' = 2, high = 2, low = 2, close = 2, volume = 0, tickCount = 1\<rparr>,
      \<lparr>bar.timestamp = TimeValue 60000, open' = 1, high = 1, low = 1, close = 1, volume = 0, tickCount = 1\<rparr>]"
    by (simp add: fst_resample array_sort_def bar_after_valid)
  ultimately show ?thesis by simp
qed

section \<open>Bucket starts\<close>

lemma getBarTime_Date:
  assumes "intervalMs m = Fin (of_int i)" "0 < i" "\<bar>ms\<bar> \<le> 8640000000000000"
  shows "getBarTime (Date ms) m = Date (bucketStart i ms)"
  using getBarTime_interval[OF assms] assms(3) by (simp add: Date_valid)

lemma getBarTime_1m:
  "\<bar>ms\<bar> \<le> 8640000000000000 \<Longrightarrow> getBarTime (TimeValue ms) (Fin 1) = Date (bucketStart 60000 ms)"
  using getBarTime_interval[of "Fin 1" 60000 ms] by (simp add: interval_1)

lemma getBarTime_5m:
  "\<bar>ms\<bar> \<le> 8640000000000000 \<Longrightarrow> getBarTime (TimeValue ms) (Fin 5) = Date (bucketStart 300000 ms)"
  using getBarTime_interval[of "Fin 5" 300000 ms] by (simp add: interval_5)

lemma getBarTime_15m:
  "\<bar>ms\<bar> \<le> 8640000000000000 \<Longrightarrow> getBarTime (TimeValue ms) (Fin 15) = Date (bucketStart 900000 ms)"
  using getBarTime_interval[of "Fin 15" 900000 ms] by (simp add: interval_15)

lemma getBarTime_7m:
  "\<bar>ms\<bar> \<le> 8640000000000000 \<Longrightarrow> getBarTime (TimeValue ms) (Fin 7) = Date (bucketStart 420000 ms)"
  using getBarTime_interval[of "Fin 7" 420000 ms] by (simp add: interval_7)

lemma same_time_TimeValue: "same_time d (TimeValue v) \<longleftrightarrow> d = TimeValue v"
  by (cases d) auto

lemma same_time_Invalid: "\<not> same_time d InvalidDate"
  by (cases d) auto

lemma same_time_valid: "same_time d d \<longleftrightarrow> d \<noteq> InvalidDate"
  by (cases d) auto



lemma bucketStart_mono: "0 < i \<Longrightarrow> a \<le> b \<Longrightarrow> bucketStart i a \<le> bucketStart i b"
  unfolding bucketStart_def by (intro mult_right_mono zdiv_mono1) simp_all










section \<open>One iteration of the aggregation loop\<close>

lemma add_volume_eq:
  "add_volume rnd t c =
     (case tick_volume rnd t of None \<Rightarrow> c | Some v \<Rightarrow> c\<lparr>volume := rnd (volume c + v)\<rparr>)"
  by (simp add: add_volume_def tick_volume_def split: option.splits)

lemmas tick_bar_eval = Date_eq getBarTime_1m getBarTime_5m getBarTime_15m bucketStart_def
  add_volume_def new_tick_bar_def update_tick_bar_def midPrice_def exact_def

lemma scenario_1m:
  "snd (aggregateTicksToBars exact scenario_ticks ''1m'') =
     Inr [\<lparr>bar.timestamp = Date 0, open' = 221 / 200, high = 9 / 8, low = 221 / 200, close = 9 / 8,
           volume = 3, tickCount = 2, spread = 1 / 100\<rparr>,
          \<lparr>bar.timestamp = Date 60000, open' = 223 / 200, high = 223 / 200, low = 223 / 200,
           close = 223 / 200, volume = 0, tickCount = 1, spread = 1 / 100\<rparr>]"
  by (simp add: snd_aggregate[OF scenario_valid parse_1m] sort_scenario)
     (simp add: scenario_ticks_def tick_bar_eval)



text \<open>What the guard of the volume does: on the ticks below the claim and the code agree.\<close>

lemma add_volume_present:
  assumes "bidVolume t = Some bv" "askVolume t = Some av" "bv \<noteq> 0" "av \<noteq> 0"
  shows "add_volume rnd t c = c\<lparr>volume := rnd (volume c + rnd (rnd (bv + av) / 2))\<rparr>"
  using assms by (simp add: add_volume_def)

lemma add_volume_absent:
  assumes "bidVolume t = None \<or> askVolume t = None"
  shows "add_volume rnd t c = c"
  using assms by (auto simp: add_volume_def split: option.splits)

lemma add_volume_zero:
  assumes "bidVolume t = Some 0 \<or> askVolume t = Some 0"
  shows "add_volume rnd t c = c"
  using assms by (auto simp: add_volume_def split: option.splits)

text \<open>
  C7. A tick with both volume fields adds \<open>(bidVolume + askVolume) / 2\<close> to the volume of the open
  bar, a tick that lacks one of them adds nothing. The guard of the source tests the truth value
  of the two fields, so a tick that carries both, one of them zero, adds nothing either: here
  \<open>bidVolume = 0\<close> and \<open>askVolume = 10\<close> leave the volume at \<open>0\<close> instead of \<open>5\<close>.
\<close>

theorem zero_volume_tick_dropped:
  "map_sum id (map volume)
     (snd (aggregateTicksToBars binary64
        [\<lparr>tick.timestamp = 0, bid = 1, ask = 1, bidVolume = Some 0, askVolume = Some 10\<rparr>] ''1m'')) =
   Inr [0]"
  by (simp add: snd_aggregate_raw[OF parse_1m] array_sort_single add_volume_def new_tick_bar_def)

section \<open>The invariant of a bar\<close>

lemma bar_ok_new_tick_bar: "bar_ok (new_tick_bar rnd d t)"
  by (simp add: bar_ok_def new_tick_bar_def)

lemma bar_ok_update_tick_bar: "bar_ok c \<Longrightarrow> bar_ok (update_tick_bar rnd c t)"
  by (auto simp: bar_ok_def update_tick_bar_def Let_def)

lemma bar_ok_add_volume: "bar_ok c \<Longrightarrow> bar_ok (add_volume rnd t c)"
  by (auto simp: bar_ok_def add_volume_def split: option.splits)

lemma tick_step_ok:
  "list_all bar_ok (flush st) \<Longrightarrow> list_all bar_ok (flush (tick_step rnd m st t))"
  by (cases st; cases "snd st")
     (auto simp: Let_def bar_ok_new_tick_bar bar_ok_update_tick_bar bar_ok_add_volume)

lemma tick_loop_ok:
  "list_all bar_ok (flush st) \<Longrightarrow> list_all bar_ok (flush (foldl (tick_step rnd m) st ts))"
  by (induction ts arbitrary: st) (auto simp: tick_step_ok)

lemma bar_ok_new_bar: "bar_ok b \<Longrightarrow> bar_ok (new_bar d b)"
  by (simp add: bar_ok_def new_bar_def)

lemma bar_ok_update_bar: "bar_ok c \<Longrightarrow> bar_ok b \<Longrightarrow> bar_ok (update_bar rnd c b)"
  by (auto simp: bar_ok_def update_bar_def)

lemma bar_step_ok:
  "list_all bar_ok (flush st) \<Longrightarrow> bar_ok b \<Longrightarrow> list_all bar_ok (flush (bar_step rnd m st b))"
  by (cases st; cases "snd st")
     (auto simp: Let_def bar_ok_new_bar bar_ok_update_bar)

lemma bar_loop_ok:
  "list_all bar_ok (flush st) \<Longrightarrow> list_all bar_ok bs \<Longrightarrow>
   list_all bar_ok (flush (foldl (bar_step rnd m) st bs))"
  by (induction bs arbitrary: st) (auto simp: bar_step_ok)

lemma resample_scenario_5m:
  "snd (resampleBars exact
     [\<lparr>bar.timestamp = Date 0, open' = 221 / 200, high = 9 / 8, low = 221 / 200, close = 9 / 8,
       volume = 3, tickCount = 2, spread = 1 / 100\<rparr>,
      \<lparr>bar.timestamp = Date 60000, open' = 223 / 200, high = 223 / 200, low = 223 / 200,
       close = 223 / 200, volume = 0, tickCount = 1, spread = 1 / 100\<rparr>] ''5m'') =
   Inr [\<lparr>bar.timestamp = Date 0, open' = 221 / 200, high = 9 / 8, low = 221 / 200,
         close = 223 / 200, volume = 3, tickCount = 3\<rparr>]"
  by (simp add: snd_resample[OF parse_5m] array_sort_def bar_after_valid Date_copy_valid Date_eq
      getBarTime_5m bucketStart_def new_bar_def update_bar_def exact_def)

text \<open>
  C9. Every bar returned by \<^verbatim>\<open>aggregateTicksToBars\<close>, and every bar of the loop state after each
  iteration (the closed bars and the open one), has its low at or below the open and the close and
  its high at or above them. The same holds for \<^verbatim>\<open>resampleBars\<close> and its loop on source bars that
  are bars in this sense.
\<close>

theorem ohlc_invariant:
  "(snd (aggregateTicksToBars rnd ticks tf) = Inr bars \<longrightarrow> list_all bar_ok bars) \<and>
   list_all bar_ok (flush (foldl (tick_step rnd m) ([], None) ts)) \<and>
   (list_all bar_ok src \<longrightarrow>
      (snd (resampleBars rnd src tf) = Inr out \<longrightarrow> list_all bar_ok out) \<and>
      list_all bar_ok (flush (foldl (bar_step rnd m) ([], None) src)))"
proof -
  have a: "list_all bar_ok bars" if "snd (aggregateTicksToBars rnd ticks tf) = Inr bars"
    using that tick_loop_ok[of "([], None)"]
    by (auto simp: aggregateTicksToBars_def Let_def split: if_splits sum.splits)
  have b: "list_all bar_ok (flush (foldl (tick_step rnd m) ([], None) ts))"
    by (rule tick_loop_ok) simp
  have c: "list_all bar_ok out" if "list_all bar_ok src" "snd (resampleBars rnd src tf) = Inr out"
    using that bar_loop_ok[of "([], None)" "array_sort bar_after src"]
    by (auto simp: resampleBars_def Let_def list_all_array_sort split: if_splits sum.splits)
  have d: "list_all bar_ok (flush (foldl (bar_step rnd m) ([], None) src))" if "list_all bar_ok src"
    using that by (intro bar_loop_ok) simp_all
  show ?thesis using a b c d by blast
qed

theorem ohlc_invariant_witness:
  "snd (aggregateTicksToBars exact scenario_ticks ''5m'') =
     Inr [\<lparr>bar.timestamp = Date 0, open' = 221 / 200, high = 9 / 8, low = 221 / 200,
           close = 223 / 200, volume = 3, tickCount = 3, spread = 1 / 100\<rparr>] \<and>
   list_all bar_ok
     [\<lparr>bar.timestamp = Date 0, open' = 221 / 200, high = 9 / 8, low = 221 / 200,
       close = 223 / 200, volume = 3, tickCount = 3, spread = 1 / 100\<rparr>] \<and>
   list_all bar_ok
     [\<lparr>bar.timestamp = Date 0, open' = 221 / 200, high = 9 / 8, low = 221 / 200, close = 9 / 8,
       volume = 3, tickCount = 2, spread = 1 / 100\<rparr>,
      \<lparr>bar.timestamp = Date 60000, open' = 223 / 200, high = 223 / 200, low = 223 / 200,
       close = 223 / 200, volume = 0, tickCount = 1, spread = 1 / 100\<rparr>] \<and>
   list_all bar_ok
     [\<lparr>bar.timestamp = Date 0, open' = 221 / 200, high = 9 / 8, low = 221 / 200,
       close = 223 / 200, volume = 3, tickCount = 3\<rparr>]"
proof -
  have five: "snd (aggregateTicksToBars exact scenario_ticks ''5m'') =
     Inr [\<lparr>bar.timestamp = Date 0, open' = 221 / 200, high = 9 / 8, low = 221 / 200,
           close = 223 / 200, volume = 3, tickCount = 3, spread = 1 / 100\<rparr>]"
    by (simp add: snd_aggregate[OF scenario_valid parse_5m] sort_scenario)
       (simp add: scenario_ticks_def tick_bar_eval)
  have src: "list_all bar_ok
     [\<lparr>bar.timestamp = Date 0, open' = 221 / 200, high = 9 / 8, low = 221 / 200, close = 9 / 8,
       volume = 3, tickCount = 2, spread = 1 / 100\<rparr>,
      \<lparr>bar.timestamp = Date 60000, open' = 223 / 200, high = 223 / 200, low = 223 / 200,
       close = 223 / 200, volume = 0, tickCount = 1, spread = 1 / 100\<rparr>]"
    by (simp add: bar_ok_def)
  show ?thesis
    using ohlc_invariant[of exact scenario_ticks "''5m''" _ "Fin 5" "[]", THEN conjunct1, rule_format, OF five]
      ohlc_invariant[of exact "[]" "''5m''" "[]" "Fin 5" "[]", THEN conjunct2, THEN conjunct2, rule_format,
        OF src, THEN conjunct1, rule_format, OF resample_scenario_5m]
      five src
    by simp
qed

section \<open>Order of the bars\<close>

lemma timestamp_add_volume [simp]: "bar.timestamp (add_volume rnd t c) = bar.timestamp c"
  by (simp add: add_volume_def split: option.splits)

lemma timestamp_new_tick_bar [simp]: "bar.timestamp (new_tick_bar rnd d t) = d"
  by (simp add: new_tick_bar_def)

lemma timestamp_update_tick_bar [simp]: "bar.timestamp (update_tick_bar rnd c t) = bar.timestamp c"
  by (simp add: update_tick_bar_def Let_def)

lemma stamps_init [simp]: "stamps ([], None) = []"
  by (simp add: stamps_def)

lemma wf_init [simp]: "wf_state ([], None)"
  by (simp add: wf_state_def)

lemma wf_tick_step: "wf_state (tick_step rnd m st t)"
  by (cases st; cases "snd st") (auto simp: wf_state_def Let_def)

lemma wf_tick_loop: "wf_state st \<Longrightarrow> wf_state (foldl (tick_step rnd m) st ts)"
  by (induction ts rule: rev_induct) (simp_all add: wf_tick_step)

text \<open>An iteration either leaves the bucket starts as they are or appends the tick's bucket.\<close>

lemma stamps_tick_step:
  assumes "wf_state st"
  shows "stamps (tick_step rnd m st t) =
     (let d = getBarTime (Date (tick.timestamp t)) m
      in if stamps st \<noteq> [] \<and> same_time (last (stamps st)) d then stamps st else stamps st @ [d])"
  using assms by (cases st; cases "snd st") (auto simp: stamps_def Let_def wf_state_def)

lemma remdups_adj_snoc:
  "remdups_adj (ys @ [y]) = (if ys \<noteq> [] \<and> last ys = y then remdups_adj ys else remdups_adj ys @ [y])"
proof (cases ys rule: rev_cases)
  case Nil
  then show ?thesis by simp
next
  case (snoc zs z)
  then show ?thesis by (simp add: remdups_adj_append_two)
qed

lemma tick_loop_stamps:
  assumes "\<forall>t\<in>set ts. getBarTime (Date (tick.timestamp t)) m = TimeValue (b t)"
  shows "stamps (foldl (tick_step rnd m) ([], None) ts) = map TimeValue (remdups_adj (map b ts))"
  using assms
proof (induction ts rule: rev_induct)
  case Nil
  then show ?case by simp
next
  case (snoc t ts)
  let ?st = "foldl (tick_step rnd m) ([], None) ts"
  have ih: "stamps ?st = map TimeValue (remdups_adj (map b ts))" using snoc by simp
  have d: "getBarTime (Date (tick.timestamp t)) m = TimeValue (b t)" using snoc.prems by simp
  have wf: "wf_state ?st" by (rule wf_tick_loop) simp
  have l: "last (map TimeValue (remdups_adj (map b ts))) = TimeValue (b (last ts))" if "ts \<noteq> []"
    using that by (simp add: last_map)
  have "stamps (foldl (tick_step rnd m) ([], None) (ts @ [t])) = stamps (tick_step rnd m ?st t)"
    by simp
  also have "\<dots> = (if stamps ?st \<noteq> [] \<and> last (stamps ?st) = TimeValue (b t)
                    then stamps ?st else stamps ?st @ [TimeValue (b t)])"
    by (simp add: stamps_tick_step[OF wf] d same_time_TimeValue)
  also have "\<dots> = map TimeValue (remdups_adj (map b (ts @ [t])))"
    using l by (cases "ts = []") (simp_all add: ih remdups_adj_snoc last_map)
  finally show ?case .
qed

text \<open>Ticks whose bucket start is the Invalid Date open a bar each.\<close>

lemma tick_loop_stamps_invalid:
  assumes "\<forall>t\<in>set ts. getBarTime (Date (tick.timestamp t)) m = InvalidDate"
  shows "stamps (foldl (tick_step rnd m) ([], None) ts) = map (\<lambda>t. InvalidDate) ts"
  using assms
proof (induction ts rule: rev_induct)
  case Nil
  then show ?case by simp
next
  case (snoc t ts)
  have wf: "wf_state (foldl (tick_step rnd m) ([], None) ts)"
    by (rule wf_tick_loop) simp
  show ?case
    using snoc by (simp add: stamps_tick_step[OF wf] same_time_Invalid)
qed

lemma distinct_remdups_adj_sorted: "sorted xs \<Longrightarrow> distinct (remdups_adj xs)"
  for xs :: "'a :: linorder list"
proof (induction xs rule: remdups_adj.induct)
  case (3 x y xs)
  then show ?case by (auto simp: remdups_adj_set)
qed simp_all

lemma strict_sorted_remdups_adj: "sorted xs \<Longrightarrow> sorted_wrt (<) (remdups_adj xs)"
  for xs :: "'a :: linorder list"
  by (simp add: strict_sorted_iff sorted_remdups_adj distinct_remdups_adj_sorted)

text \<open>The bucket starts of the bars of a sorted run: strictly ascending instants.\<close>

lemma aggregate_starts:
  fixes ticks :: "tick list"
  assumes "0 < i"
    and "\<forall>t\<in>set ticks. getBarTime (Date (tick.timestamp t)) m = TimeValue (bucketStart i (tick.timestamp t))"
  defines "starts \<equiv> remdups_adj (map (\<lambda>t. bucketStart i (tick.timestamp t)) (sort_key tick.timestamp ticks))"
  shows "map bar.timestamp (flush (foldl (tick_step rnd m) ([], None) (sort_key tick.timestamp ticks))) =
           map TimeValue starts"
    and "sorted_wrt (<) starts"
    and "set starts = (\<lambda>t. bucketStart i (tick.timestamp t)) ` set ticks"
proof -
  let ?b = "\<lambda>t. bucketStart i (tick.timestamp t)"
  let ?sorted = "sort_key tick.timestamp ticks"
  have "\<forall>t\<in>set ?sorted. getBarTime (Date (tick.timestamp t)) m = TimeValue (?b t)"
    using assms(2) by simp
  then show "map bar.timestamp (flush (foldl (tick_step rnd m) ([], None) ?sorted)) = map TimeValue starts"
    using tick_loop_stamps[where ts = ?sorted and rnd = rnd and m = m and b = ?b]
    by (simp add: stamps_def starts_def)
  have "sorted (map tick.timestamp ?sorted)" by (rule sorted_sort_key)
  then have "sorted (map ?b ?sorted)"
    using assms(1)
    by (simp add: sorted_map) (erule sorted_wrt_mono_rel[rotated], simp add: bucketStart_mono)
  then show "sorted_wrt (<) starts"
    unfolding starts_def by (rule strict_sorted_remdups_adj)
  show "set starts = ?b ` set ticks"
    by (auto simp: starts_def remdups_adj_set)
qed

text \<open>
  When no bucket start is the Invalid Date, the timestamps are valid dates and the interval is a
  positive whole number of milliseconds.
\<close>

lemma valid_buckets:
  assumes "parseTimeframe tf = Inr m" and "ticks \<noteq> []"
    and "\<forall>t\<in>set ticks. getBarTime (Date (tick.timestamp t)) m \<noteq> InvalidDate"
  shows "\<exists>i. 0 < i \<and> intervalMs m = Fin (of_int i) \<and>
           (\<forall>t\<in>set ticks. \<bar>tick.timestamp t\<bar> \<le> 8640000000000000 \<and>
              getBarTime (Date (tick.timestamp t)) m = TimeValue (bucketStart i (tick.timestamp t)))"
proof -
  from assms(2) obtain t0 where t0: "t0 \<in> set ticks" by (cases ticks) auto
  then have v0: "getBarTime (Date (tick.timestamp t0)) m \<noteq> InvalidDate" using assms(3) by simp
  have "count_like (intervalMs m)" using assms(1) by (intro count_like_interval count_like_parse)
  then consider "intervalMs m = PosInf" | j :: nat where "intervalMs m = Fin (real j)"
    by (auto simp: count_like_def)
  then obtain j :: nat where j: "intervalMs m = Fin (real j)" and jpos: "0 < j"
  proof cases
    case 1
    then show ?thesis using v0 getBarTime_inf by blast
  next
    case (2 j)
    then have "j \<noteq> 0" using v0 getBarTime_zero[of m] by auto
    then show ?thesis using 2 that by simp
  qed
  have int: "intervalMs m = Fin (of_int (int j))" using j by simp
  have pos: "0 < int j" using jpos by simp
  have each: "\<bar>tick.timestamp t\<bar> \<le> 8640000000000000 \<and>
      getBarTime (Date (tick.timestamp t)) m = TimeValue (bucketStart (int j) (tick.timestamp t))"
    if t: "t \<in> set ticks" for t
  proof -
    have v: "getBarTime (Date (tick.timestamp t)) m \<noteq> InvalidDate" using assms(3) t by simp
    have r: "\<bar>tick.timestamp t\<bar> \<le> 8640000000000000"
    proof (rule ccontr)
      assume "\<not> \<bar>tick.timestamp t\<bar> \<le> 8640000000000000"
      then have "Date (tick.timestamp t) = InvalidDate" by (simp add: Date_eq)
      then show False using v by (simp add: getBarTime_Invalid)
    qed
    have "getBarTime (Date (tick.timestamp t)) m = Date (bucketStart (int j) (tick.timestamp t))"
      using int pos r by (rule getBarTime_Date)
    then show ?thesis using v r by (simp add: Date_eq split: if_splits)
  qed
  show ?thesis using pos int each by blast
qed

text \<open>
  C1, as the code has it. Whenever no tick has the Invalid Date as its bucket start, the bars come
  in strictly ascending order of their bucket starts, no bucket start occurs twice, and the bucket
  starts of the bars are exactly the buckets of the ticks: one bar for each bucket that holds a
  tick, none for a bucket without ticks. (The bucket starts are valid when the timestamps are
  valid dates, the count is neither zero nor so large that its interval is \<^verbatim>\<open>Infinity\<close>, and no
  floor falls below the first instant of \<^verbatim>\<open>Date\<close>; see \<open>getBarTime_floor\<close>. Ticks whose bucket
  start is the Invalid Date get a bar each, all with the Invalid Date.)
\<close>

theorem bars_ascending:
  assumes "parseTimeframe tf = Inr m"
    and "\<forall>t\<in>set ticks. getBarTime (Date (tick.timestamp t)) m \<noteq> InvalidDate"
  shows "\<exists>bars. snd (aggregateTicksToBars rnd ticks tf) = Inr bars \<and>
           sorted_wrt date_less (map bar.timestamp bars) \<and>
           distinct (map bar.timestamp bars) \<and>
           set (map bar.timestamp bars) = (\<lambda>t. getBarTime (Date (tick.timestamp t)) m) ` set ticks"
proof (cases "ticks = []")
  case True
  then show ?thesis by (simp add: aggregateTicksToBars_def)
next
  case False
  from valid_buckets[OF assms(1) False assms(2)] obtain i where pos: "0 < i"
    and valid: "\<forall>t\<in>set ticks. \<bar>tick.timestamp t\<bar> \<le> 8640000000000000"
    and buck: "\<forall>t\<in>set ticks.
      getBarTime (Date (tick.timestamp t)) m = TimeValue (bucketStart i (tick.timestamp t))"
    by blast
  let ?b = "\<lambda>t. bucketStart i (tick.timestamp t)"
  let ?bars = "flush (foldl (tick_step rnd m) ([], None) (sort_key tick.timestamp ticks))"
  let ?starts = "remdups_adj (map ?b (sort_key tick.timestamp ticks))"
  note st = aggregate_starts(1)[OF pos buck, where rnd = rnd] aggregate_starts(2,3)[OF pos buck]
  have ts: "map bar.timestamp ?bars = map TimeValue ?starts" by (rule st(1))
  have asc: "sorted_wrt date_less (map TimeValue ?starts)"
    using st(2) by (simp add: sorted_wrt_map)
  have dist: "distinct (map TimeValue ?starts)"
    using st(2) by (simp add: distinct_map strict_sorted_iff inj_on_def)
  have "set (map TimeValue ?starts) = (\<lambda>t. TimeValue (?b t)) ` set ticks"
    using st(3) by auto
  also have "\<dots> = (\<lambda>t. getBarTime (Date (tick.timestamp t)) m) ` set ticks"
    using buck by (intro image_cong) simp_all
  finally have sets:
    "set (map TimeValue ?starts) = (\<lambda>t. getBarTime (Date (tick.timestamp t)) m) ` set ticks" .
  show ?thesis
  proof (intro exI conjI)
    show "snd (aggregateTicksToBars rnd ticks tf) = Inr ?bars"
      using valid assms(1) by (rule snd_aggregate)
    show "sorted_wrt date_less (map bar.timestamp ?bars)"
      unfolding ts by (rule asc)
    show "distinct (map bar.timestamp ?bars)" unfolding ts by (rule dist)
    show "set (map bar.timestamp ?bars) = (\<lambda>t. getBarTime (Date (tick.timestamp t)) m) ` set ticks"
      unfolding ts by (rule sets)
  qed
qed

theorem bars_ascending_witness:
  "parseTimeframe ''1m'' = Inr (Fin 1) \<and>
   list_all (\<lambda>t. getBarTime (Date (tick.timestamp t)) (Fin 1) \<noteq> InvalidDate) scenario_ticks \<and>
   (\<exists>bars. snd (aggregateTicksToBars exact scenario_ticks ''1m'') = Inr bars \<and>
      map bar.timestamp bars = [TimeValue 0, TimeValue 60000] \<and>
      sorted_wrt date_less (map bar.timestamp bars) \<and>
      distinct (map bar.timestamp bars) \<and>
      set (map bar.timestamp bars) =
        (\<lambda>t. getBarTime (Date (tick.timestamp t)) (Fin 1)) ` set scenario_ticks)"
proof -
  have v: "\<forall>t\<in>set scenario_ticks. getBarTime (Date (tick.timestamp t)) (Fin 1) \<noteq> InvalidDate"
    by (simp add: scenario_ticks_def Date_eq getBarTime_1m bucketStart_def)
  show ?thesis
    using bars_ascending[OF parse_1m v, of exact] parse_1m scenario_1m v
    by (simp add: list_all_iff Date_eq)
qed

text \<open>
  With the count zero every tick gets a bar of its own, and so do, with a timeframe of seven
  minutes, two ticks at the first instant of \<^verbatim>\<open>Date\<close>.
\<close>

theorem invalid_buckets_not_ascending:
  "timeframe_grammar ''0m'' \<and> parseTimeframe ''0m'' = Inr (Fin 0) \<and>
   map_sum id (map bar.timestamp) (snd (aggregateTicksToBars binary64 scenario_ticks ''0m'')) =
     Inr [InvalidDate, InvalidDate, InvalidDate] \<and>
   timeframe_grammar ''7m'' \<and> parseTimeframe ''7m'' = Inr (Fin 7) \<and>
   map_sum id (map bar.timestamp)
     (snd (aggregateTicksToBars binary64
        [\<lparr>tick.timestamp = - 8640000000000000, bid = 1, ask = 1, bidVolume = None, askVolume = None\<rparr>,
         \<lparr>tick.timestamp = - 8640000000000000, bid = 2, ask = 2, bidVolume = None, askVolume = None\<rparr>]
        ''7m'')) =
     Inr [InvalidDate, InvalidDate] \<and>
   \<not> date_less InvalidDate InvalidDate \<and>
   \<not> distinct [InvalidDate, InvalidDate]"
proof -
  have zero: "\<forall>t\<in>set (sort_key tick.timestamp scenario_ticks).
      getBarTime (Date (tick.timestamp t)) (Fin 0) = InvalidDate"
    by (simp add: getBarTime_zero interval_0)
  let ?first = "[\<lparr>tick.timestamp = - 8640000000000000, bid = 1, ask = 1, bidVolume = None, askVolume = None\<rparr>,
         \<lparr>tick.timestamp = - 8640000000000000, bid = 2, ask = 2, bidVolume = None, askVolume = None\<rparr>]"
  have valid: "\<forall>t\<in>set ?first. \<bar>tick.timestamp t\<bar> \<le> 8640000000000000" by simp
  have seven: "\<forall>t\<in>set (sort_key tick.timestamp ?first).
      getBarTime (Date (tick.timestamp t)) (Fin 7) = InvalidDate"
    by (simp add: Date_eq getBarTime_7m bucketStart_def)
  show ?thesis
    using tick_loop_stamps_invalid[OF zero, where rnd = binary64]
      tick_loop_stamps_invalid[OF seven, where rnd = binary64]
    by (simp add: snd_aggregate[OF scenario_valid parse_0m] snd_aggregate[OF valid parse_7m]
        timeframe_grammar_def is_digit_def parse_0m parse_7m stamps_def)
       (simp add: scenario_ticks_def)
qed

end
